theory Spec2Isabelle
  imports Complex_Main "HOL-Library.Sublist"
begin

section \<open>Python string primitives used by the services\<close>

text \<open>
  Python strings are modelled as \<open>string\<close>; a character is one code point below 256.
  \<open>isspace\<close> is the predicate behind \<^verbatim>\<open>str.strip()\<close>, \<^verbatim>\<open>str.split()\<close> and the
  regular-expression class \<^verbatim>\<open>\s\<close> on that range: the code points 9-13, 28-32, 133, 160.
\<close>

definition isspace :: "char \<Rightarrow> bool" where
  "isspace c = (of_char c \<in> {9::nat, 10, 11, 12, 13, 28, 29, 30, 31, 32, 133, 160})"

text \<open>\<^verbatim>\<open>s.strip()\<close>: whitespace removed at both ends.\<close>

definition strip :: "string \<Rightarrow> string" where
  "strip s = rev (dropWhile isspace (rev (dropWhile isspace s)))"

text \<open>\<^verbatim>\<open>s.split()\<close>: the maximal runs of non-whitespace characters, in order.
  The first argument is the token being read.\<close>

fun split_ws_from :: "string \<Rightarrow> string \<Rightarrow> string list" where
  "split_ws_from cur [] = (if cur = [] then [] else [cur])"
| "split_ws_from cur (c # cs) =
     (if isspace c then (if cur = [] then split_ws_from [] cs else cur # split_ws_from [] cs)
      else split_ws_from (cur @ [c]) cs)"

definition split_ws :: "string \<Rightarrow> string list" where
  "split_ws s = split_ws_from [] s"

text \<open>\<^verbatim>\<open>text.split('\n\n')\<close>: split at each non-overlapping pair of line feeds, scanning
  from the left; empty pieces are kept.\<close>

fun split_nlnl_from :: "string \<Rightarrow> string \<Rightarrow> string list" where
  "split_nlnl_from cur (c # d # cs) =
     (if c = CHR 0x0A \<and> d = CHR 0x0A then cur # split_nlnl_from [] cs
      else split_nlnl_from (cur @ [c]) (d # cs))"
| "split_nlnl_from cur [c] = [cur @ [c]]"
| "split_nlnl_from cur [] = [cur]"

definition split_nlnl :: "string \<Rightarrow> string list" where
  "split_nlnl s = split_nlnl_from [] s"

text \<open>\<^verbatim>\<open>re.split(r'(?<=[.!?])\s+', paragraph)\<close>: a separator is a maximal run of whitespace
  whose preceding character is one of \<^verbatim>\<open>. ! ?\<close>; the pieces between separators are
  returned, a trailing empty piece included.\<close>

definition is_sentence_end :: "char \<Rightarrow> bool" where
  "is_sentence_end c = (c = CHR ''.'' \<or> c = CHR ''!'' \<or> c = CHR ''?'')"

function split_sentences_from :: "string \<Rightarrow> string \<Rightarrow> string list" where
  "split_sentences_from cur [] = [cur]"
| "split_sentences_from cur (c # cs) =
     (if isspace c \<and> cur \<noteq> [] \<and> is_sentence_end (last cur)
      then cur # split_sentences_from [] (dropWhile isspace cs)
      else split_sentences_from (cur @ [c]) cs)"
  by pat_completeness auto
termination
  by (relation "measure (\<lambda>(cur, s). length s)")
     (auto simp: length_dropWhile_le less_Suc_eq_le)

definition split_sentences :: "string \<Rightarrow> string list" where
  "split_sentences s = split_sentences_from [] s"

text \<open>\<^verbatim>\<open>s.rfind(sub)\<close>: the highest index at which \<open>sub\<close> occurs in \<open>s\<close>, or -1.\<close>

definition rfind :: "string \<Rightarrow> string \<Rightarrow> int" where
  "rfind s sub =
     (case filter (\<lambda>i. take (length sub) (drop i s) = sub) (rev [0..<Suc (length s)]) of
        [] \<Rightarrow> - 1
      | i # _ \<Rightarrow> int i)"

text \<open>\<^verbatim>\<open>text[-n:]\<close> for \<open>n \<ge> 0\<close>: the last \<open>n\<close> characters, and the whole text when
  \<open>n = 0\<close> (the slice \<^verbatim>\<open>text[-0:]\<close> starts at index 0).\<close>

definition last_chars :: "nat \<Rightarrow> string \<Rightarrow> string" where
  "last_chars n s = (if n = 0 then s else drop (length s - n) s)"

section \<open>The text chunker (document\_processor.py)\<close>

text \<open>The two constants of \<^verbatim>\<open>app.core.config.settings\<close> the chunker reads; the settings
  module is a parameter of the model.\<close>

record settings =
  CHUNK_SIZE :: nat
  CHUNK_OVERLAP :: nat

text \<open>A page unit \<^verbatim>\<open>{"text": ..., "page": ...}\<close> and a chunk
  \<^verbatim>\<open>{"text": ..., "page": ..., "chunk_index": ...}\<close>.\<close>

record page_content =
  "text" :: string
  page :: int

record chunk = page_content +
  chunk_index :: nat

definition mk_chunk :: "string \<Rightarrow> int \<Rightarrow> nat \<Rightarrow> chunk" where
  "mk_chunk t p i = \<lparr>text = t, page = p, chunk_index = i\<rparr>"

text \<open>The state of each loop: the chunks appended so far, \<^verbatim>\<open>current_chunk\<close>, and
  \<^verbatim>\<open>chunk_index\<close>.\<close>

type_synonym chunker_state = "chunk list \<times> string \<times> nat"

text \<open>\<^verbatim>\<open>_get_overlap_text\<close>.\<close>

definition get_overlap_text :: "settings \<Rightarrow> string \<Rightarrow> string" where
  "get_overlap_text cfg t =
     (if length t \<le> CHUNK_OVERLAP cfg then t
      else
        let overlap = last_chars (CHUNK_OVERLAP cfg) t;
            sentence_end = max (rfind overlap ''. '') (max (rfind overlap ''! '') (rfind overlap ''? ''))
        in if sentence_end > 0 then drop (nat (sentence_end + 2)) overlap else overlap)"

text \<open>The body of \<^verbatim>\<open>for word in words\<close> in \<^verbatim>\<open>_split_large_paragraph\<close>.\<close>

fun word_step :: "settings \<Rightarrow> int \<Rightarrow> string \<Rightarrow> chunker_state \<Rightarrow> chunker_state" where
  "word_step cfg pg word (chunks, current_chunk, idx) =
     (if length current_chunk + length word > CHUNK_SIZE cfg then
        (if current_chunk \<noteq> []
         then (chunks @ [mk_chunk (strip current_chunk) pg idx], word, idx + 1)
         else (chunks, word, idx))
      else (chunks, current_chunk @ (if current_chunk \<noteq> [] then '' '' else []) @ word, idx))"

text \<open>The body of \<^verbatim>\<open>for sentence in sentences\<close>.\<close>

fun sentence_step :: "settings \<Rightarrow> int \<Rightarrow> string \<Rightarrow> chunker_state \<Rightarrow> chunker_state" where
  "sentence_step cfg pg sentence (chunks, current_chunk, idx) =
     (if length current_chunk + length sentence > CHUNK_SIZE cfg then
        (let flushed = (if current_chunk \<noteq> []
                        then (chunks @ [mk_chunk (strip current_chunk) pg idx], idx + 1)
                        else (chunks, idx))
         in if length sentence > CHUNK_SIZE cfg
            then fold (word_step cfg pg) (split_ws sentence) (fst flushed, [], snd flushed)
            else (fst flushed, sentence, snd flushed))
      else (chunks, current_chunk @ (if current_chunk \<noteq> [] then '' '' else []) @ sentence, idx))"

text \<open>The flush after a loop: \<^verbatim>\<open>if current_chunk.strip(): chunks.append(...)\<close>.\<close>

fun flush_rest :: "int \<Rightarrow> chunker_state \<Rightarrow> chunk list \<times> nat" where
  "flush_rest pg (chunks, current_chunk, idx) =
     (if strip current_chunk \<noteq> []
      then (chunks @ [mk_chunk (strip current_chunk) pg idx], idx + 1)
      else (chunks, idx))"

text \<open>\<^verbatim>\<open>_split_large_paragraph\<close>. (The source does not increment the index after its
  last append; the list returned is the same.)\<close>

definition split_large_paragraph :: "settings \<Rightarrow> string \<Rightarrow> int \<Rightarrow> nat \<Rightarrow> chunk list" where
  "split_large_paragraph cfg paragraph pg start_index =
     fst (flush_rest pg
       (fold (sentence_step cfg pg) (split_sentences paragraph) ([], [], start_index)))"

text \<open>The body of \<^verbatim>\<open>for paragraph in paragraphs\<close> in \<^verbatim>\<open>_chunk_text\<close>.\<close>

fun paragraph_step :: "settings \<Rightarrow> int \<Rightarrow> string \<Rightarrow> chunker_state \<Rightarrow> chunker_state" where
  "paragraph_step cfg pg raw (chunks, current_chunk, idx) =
     (let paragraph = strip raw in
      if paragraph = [] then (chunks, current_chunk, idx)
      else if length current_chunk + length paragraph > CHUNK_SIZE cfg then
        (if current_chunk \<noteq> []
         then (chunks @ [mk_chunk (strip current_chunk) pg idx],
               get_overlap_text cfg current_chunk @ '' '' @ paragraph, idx + 1)
         else (let para_chunks = split_large_paragraph cfg paragraph pg idx
               in (chunks @ para_chunks, [], idx + length para_chunks)))
      else (chunks,
            current_chunk @ (if current_chunk \<noteq> [] then [CHR 0x0A, CHR 0x0A] else []) @ paragraph,
            idx))"

text \<open>The body of \<^verbatim>\<open>for page_content in text_content\<close>: the buffer starts empty on
  every page and what is left of it is appended after the page's paragraphs.\<close>

fun page_step :: "settings \<Rightarrow> page_content \<Rightarrow> chunk list \<times> nat \<Rightarrow> chunk list \<times> nat" where
  "page_step cfg pc (chunks, idx) =
     flush_rest (page pc)
       (fold (paragraph_step cfg (page pc)) (split_nlnl (text pc)) (chunks, [], idx))"

text \<open>\<^verbatim>\<open>_chunk_text\<close>.\<close>

definition chunk_text :: "settings \<Rightarrow> page_content list \<Rightarrow> chunk list" where
  "chunk_text cfg text_content = fst (fold (page_step cfg) text_content ([], 0))"

section \<open>Value parsers and table classifier (table\_parser.py)\<close>

subsection \<open>More string primitives\<close>

text \<open>\<^verbatim>\<open>str.lower()\<close> on code points below 256: A-Z and the Latin-1 capitals (192-222
  except 215) move up by 32; the result has the same length.\<close>

definition lower_char :: "char \<Rightarrow> char" where
  "lower_char c =
     (let n = (of_char c :: nat)
      in if (65 \<le> n \<and> n \<le> 90) \<or> (192 \<le> n \<and> n \<le> 222 \<and> n \<noteq> 215)
         then char_of (n + 32) else c)"

definition lower :: "string \<Rightarrow> string" where
  "lower s = map lower_char s"

text \<open>\<^verbatim>\<open>sep.join(parts)\<close>.\<close>

fun join :: "string \<Rightarrow> string list \<Rightarrow> string" where
  "join sep [] = []"
| "join sep [x] = x"
| "join sep (x # y # ys) = x @ sep @ join sep (y # ys)"

text \<open>\<^verbatim>\<open>sub in s\<close>: \<open>sub\<close> occurs in \<open>s\<close> as a contiguous substring.\<close>

fun contains :: "string \<Rightarrow> string \<Rightarrow> bool" where
  "contains [] sub = (sub = [])"
| "contains (c # cs) sub = (prefix sub (c # cs) \<or> contains cs sub)"

text \<open>The class \<^verbatim>\<open>\d\<close> on code points below 256, and \<^verbatim>\<open>int(digits)\<close>.\<close>

definition is_digit :: "char \<Rightarrow> bool" where
  "is_digit c = (48 \<le> (of_char c :: nat) \<and> (of_char c :: nat) \<le> 57)"

definition digit_value :: "char \<Rightarrow> nat" where
  "digit_value c = of_char c - 48"

definition nat_of_digits :: "string \<Rightarrow> nat" where
  "nat_of_digits ds = foldl (\<lambda>a c. 10 * a + digit_value c) 0 ds"

text \<open>\<^verbatim>\<open>str(n)\<close> for a non-negative integer.\<close>

function str_nat :: "nat \<Rightarrow> string" where
  "str_nat n = (if n < 10 then [char_of (48 + n)] else str_nat (n div 10) @ [char_of (48 + n mod 10)])"
  by pat_completeness auto
termination
  by (relation "measure id") auto

subsection \<open>Table classification\<close>

type_synonym table = "string list list"

datatype table_type = capital_call | distribution | adjustment

definition capital_call_keywords :: "string list" where
  "capital_call_keywords =
     [''capital call'', ''capital contribution'', ''drawdown'',
      ''call date'', ''call number'', ''contribution date'']"

definition distribution_keywords :: "string list" where
  "distribution_keywords =
     [''distribution'', ''return of capital'', ''dividend'',
      ''distribution date'', ''payment'', ''return'']"

definition adjustment_keywords :: "string list" where
  "adjustment_keywords =
     [''adjustment'', ''rebalance'', ''recall'', ''recallable'',
      ''correction'', ''amendment'']"

text \<open>The search buffer: the lower-cased cells of the first three rows, joined by spaces.\<close>

definition header_text :: "table \<Rightarrow> string" where
  "header_text table = join '' '' (map (\<lambda>row. join '' '' (map lower row)) (take 3 table))"

text \<open>\<^verbatim>\<open>sum(1 for kw in keywords if kw in header_text)\<close>.\<close>

definition keyword_score :: "string list \<Rightarrow> string \<Rightarrow> nat" where
  "keyword_score keywords buf = length (filter (contains buf) keywords)"

definition capital_score :: "table \<Rightarrow> nat" where
  "capital_score table = keyword_score capital_call_keywords (header_text table)"

definition distribution_score :: "table \<Rightarrow> nat" where
  "distribution_score table = keyword_score distribution_keywords (header_text table)"

definition adjustment_score :: "table \<Rightarrow> nat" where
  "adjustment_score table = keyword_score adjustment_keywords (header_text table)"

text \<open>\<^verbatim>\<open>_classify_table\<close>; \<open>None\<close> is the source's \<^verbatim>\<open>None\<close> (unclassified).\<close>

definition classify_table :: "table \<Rightarrow> table_type option" where
  "classify_table table =
     (if table = [] then None
      else
        let max_score = max (capital_score table) (max (distribution_score table) (adjustment_score table))
        in if max_score = 0 then None
           else if capital_score table = max_score then Some capital_call
           else if distribution_score table = max_score then Some distribution
           else Some adjustment)"

subsection \<open>Dates\<close>

text \<open>A \<^verbatim>\<open>datetime\<close> as \<^verbatim>\<open>strptime\<close> builds it from the formats below: the time of day is
  always midnight, so the date fields are the value.\<close>

record datetime =
  year :: nat
  month :: nat
  day :: nat

text \<open>The pieces of a \<^verbatim>\<open>strptime\<close> format: a directive, a run of whitespace (which the
  library turns into \<^verbatim>\<open>\s+\<close>), or a literal character.\<close>

datatype directive = Dir_Y | Dir_m | Dir_d | Dir_b | Dir_B | Whitespace | Literal char

fun compile_format :: "string \<Rightarrow> directive list" where
  "compile_format [] = []"
| "compile_format [c] = (if isspace c then [Whitespace] else [Literal c])"
| "compile_format (c # d # cs) =
     (if c = CHR ''%'' then
        (if d = CHR ''Y'' then Dir_Y else if d = CHR ''m'' then Dir_m
         else if d = CHR ''d'' then Dir_d else if d = CHR ''b'' then Dir_b
         else if d = CHR ''B'' then Dir_B else Literal d) # compile_format cs
      else if isspace c then
        (if isspace d then compile_format (d # cs) else Whitespace # compile_format (d # cs))
      else Literal c # compile_format (d # cs))"

text \<open>Month names of the C/English locale, in the order the library's regular expression
  lists them (longest first, ties in calendar order), each with its month number.\<close>

definition a_month :: "(string \<times> nat) list" where
  "a_month =
     [(''jan'', 1), (''feb'', 2), (''mar'', 3), (''apr'', 4), (''may'', 5), (''jun'', 6),
      (''jul'', 7), (''aug'', 8), (''sep'', 9), (''oct'', 10), (''nov'', 11), (''dec'', 12)]"

definition f_month :: "(string \<times> nat) list" where
  "f_month =
     [(''september'', 9), (''february'', 2), (''november'', 11), (''december'', 12),
      (''january'', 1), (''october'', 10), (''august'', 8), (''march'', 3), (''april'', 4),
      (''june'', 6), (''july'', 7), (''may'', 5)]"

text \<open>Matching one name of a list, ignoring case: every alternative that matches, in the
  list's order, with the text that follows it.\<close>

definition match_names :: "(string \<times> nat) list \<Rightarrow> string \<Rightarrow> (nat \<times> string) list" where
  "match_names names s =
     map (\<lambda>(name, v). (v, drop (length name) s))
       (filter (\<lambda>(name, v). length name \<le> length s \<and> lower (take (length name) s) = name) names)"

text \<open>The alternatives of \<^verbatim>\<open>%m\<close>, \<^verbatim>\<open>1[0-2]|0[1-9]|[1-9]\<close>, of \<^verbatim>\<open>%d\<close>,
  \<^verbatim>\<open>3[0-1]|[1-2]\d|0[1-9]|[1-9]| [1-9]\<close>, and \<^verbatim>\<open>%Y\<close>, \<^verbatim>\<open>\d\d\d\d\<close>: all matches at the
  start of the text in the order a backtracking matcher tries them.\<close>

definition two_chars :: "(char \<Rightarrow> bool) \<Rightarrow> (char \<Rightarrow> bool) \<Rightarrow> string \<Rightarrow> (nat \<times> string) list" where
  "two_chars p q s =
     (case s of
        a # b # rest \<Rightarrow> if p a \<and> q b then [(nat_of_digits (filter is_digit [a, b]), rest)] else []
      | _ \<Rightarrow> [])"

definition one_char :: "(char \<Rightarrow> bool) \<Rightarrow> string \<Rightarrow> (nat \<times> string) list" where
  "one_char p s = (case s of a # rest \<Rightarrow> if p a then [(digit_value a, rest)] else [] | _ \<Rightarrow> [])"

definition char_in :: "nat \<Rightarrow> nat \<Rightarrow> char \<Rightarrow> bool" where
  "char_in lo hi c = (48 + lo \<le> (of_char c :: nat) \<and> (of_char c :: nat) \<le> 48 + hi)"

definition match_m :: "string \<Rightarrow> (nat \<times> string) list" where
  "match_m s =
     two_chars (char_in 1 1) (char_in 0 2) s @ two_chars (char_in 0 0) (char_in 1 9) s
     @ one_char (char_in 1 9) s"

definition match_d :: "string \<Rightarrow> (nat \<times> string) list" where
  "match_d s =
     two_chars (char_in 3 3) (char_in 0 1) s @ two_chars (char_in 1 2) is_digit s
     @ two_chars (char_in 0 0) (char_in 1 9) s @ one_char (char_in 1 9) s
     @ two_chars (\<lambda>c. c = CHR '' '') (char_in 1 9) s"

definition match_Y :: "string \<Rightarrow> (nat \<times> string) list" where
  "match_Y s =
     (if 4 \<le> length s \<and> list_all is_digit (take 4 s) then [(nat_of_digits (take 4 s), drop 4 s)]
      else [])"

text \<open>\<^verbatim>\<open>\s+\<close>, greedy: the whole run of whitespace first, then each shorter non-empty
  part of it.\<close>

definition match_whitespace :: "string \<Rightarrow> string list" where
  "match_whitespace s =
     map (\<lambda>k. drop k s) (rev [1..<Suc (length (takeWhile isspace s))])"

text \<open>The fields a match has set so far: year, month, day (defaults 1900, 1, 1).\<close>

type_synonym date_fields = "nat \<times> nat \<times> nat"

fun match_directive :: "directive \<Rightarrow> string \<Rightarrow> date_fields \<Rightarrow> (date_fields \<times> string) list" where
  "match_directive Dir_Y s (y, m, d) = map (\<lambda>(v, rest). ((v, m, d), rest)) (match_Y s)"
| "match_directive Dir_m s (y, m, d) = map (\<lambda>(v, rest). ((y, v, d), rest)) (match_m s)"
| "match_directive Dir_d s (y, m, d) = map (\<lambda>(v, rest). ((y, m, v), rest)) (match_d s)"
| "match_directive Dir_b s (y, m, d) = map (\<lambda>(v, rest). ((y, v, d), rest)) (match_names a_month s)"
| "match_directive Dir_B s (y, m, d) = map (\<lambda>(v, rest). ((y, v, d), rest)) (match_names f_month s)"
| "match_directive Whitespace s f = map (\<lambda>rest. (f, rest)) (match_whitespace s)"
| "match_directive (Literal c) s f =
     (case s of a # rest \<Rightarrow> if a = c then [(f, rest)] else [] | [] \<Rightarrow> [])"

text \<open>All matches of a format at the start of the text, in the matcher's order; the head
  of the list is the match \<^verbatim>\<open>re.match\<close> returns.\<close>

fun match_format :: "directive list \<Rightarrow> string \<Rightarrow> date_fields \<Rightarrow> (date_fields \<times> string) list" where
  "match_format [] s f = [(f, s)]"
| "match_format (d # ds) s f =
     concat (map (\<lambda>(f', rest). match_format ds rest f') (match_directive d s f))"

definition is_leap :: "nat \<Rightarrow> bool" where
  "is_leap y = (y mod 4 = 0 \<and> (y mod 400 = 0 \<or> y mod 100 \<noteq> 0))"

definition days_in_month :: "nat \<Rightarrow> nat \<Rightarrow> nat" where
  "days_in_month y m =
     (if m = 2 then (if is_leap y then 29 else 28)
      else if m = 4 \<or> m = 6 \<or> m = 9 \<or> m = 11 then 30 else 31)"

text \<open>\<^verbatim>\<open>datetime.strptime(s, fmt)\<close>; \<open>None\<close> is a \<^verbatim>\<open>ValueError\<close>: the text does not
  match, unconverted text remains after the match, or the fields are not a date (year 0,
  a day the month does not have).\<close>

definition strptime :: "string \<Rightarrow> string \<Rightarrow> datetime option" where
  "strptime s fmt =
     (case match_format (compile_format fmt) s (1900, 1, 1) of
        [] \<Rightarrow> None
      | ((y, m, d), rest) # _ \<Rightarrow>
          if rest \<noteq> [] then None
          else if 1 \<le> y \<and> 1 \<le> m \<and> m \<le> 12 \<and> 1 \<le> d \<and> d \<le> days_in_month y m
          then Some \<lparr>year = y, month = m, day = d\<rparr>
          else None)"

definition date_formats :: "string list" where
  "date_formats =
     [''%Y-%m-%d'', ''%m/%d/%Y'', ''%d/%m/%Y'', ''%Y/%m/%d'', ''%m-%d-%Y'', ''%d-%m-%Y'',
      ''%b %d, %Y'', ''%B %d, %Y'', ''%d %b %Y'', ''%d %B %Y'']"

text \<open>The loop \<^verbatim>\<open>for fmt in date_formats: try: return strptime(...) except ValueError:
  continue\<close>, then \<^verbatim>\<open>return None\<close>.\<close>

fun try_formats :: "string \<Rightarrow> string list \<Rightarrow> datetime option" where
  "try_formats s [] = None"
| "try_formats s (fmt # fmts) =
     (case strptime s fmt of Some dt \<Rightarrow> Some dt | None \<Rightarrow> try_formats s fmts)"

text \<open>\<^verbatim>\<open>_parse_date\<close>.\<close>

definition parse_date :: "string \<Rightarrow> datetime option" where
  "parse_date date_str =
     (if date_str = [] \<or> strip date_str = [] then None
      else try_formats (strip date_str) date_formats)"

subsection \<open>Amounts\<close>

text \<open>A finite \<^verbatim>\<open>decimal.Decimal\<close>: sign (\<open>True\<close> is negative), coefficient and exponent;
  its value is \<open>\<plusminus> dec_int * 10 ^ dec_exp\<close>.\<close>

record decimal =
  dec_sign :: bool
  dec_int :: nat
  dec_exp :: int

definition dec_value :: "decimal \<Rightarrow> rat" where
  "dec_value d =
     (if dec_sign d then - 1 else 1) *
     (if 0 \<le> dec_exp d then of_nat (dec_int d * 10 ^ nat (dec_exp d))
      else of_nat (dec_int d) / of_nat (10 ^ nat (- dec_exp d)))"

text \<open>\<^verbatim>\<open>Decimal(s)\<close> for a text of digits, points and signs (all that \<^verbatim>\<open>_parse_amount\<close>
  leaves): an optional sign, then digits with at most one point and at least one digit.
  The conversion is exact. \<open>None\<close> is \<^verbatim>\<open>decimal.InvalidOperation\<close>.\<close>

definition Decimal :: "string \<Rightarrow> decimal option" where
  "Decimal s =
     (let signed = (s \<noteq> [] \<and> (hd s = CHR ''-'' \<or> hd s = CHR ''+''));
          neg = (s \<noteq> [] \<and> hd s = CHR ''-'');
          body = (if signed then tl s else s);
          intpart = takeWhile is_digit body;
          rest = dropWhile is_digit body
      in case rest of
           [] \<Rightarrow> if intpart = [] then None
                 else Some \<lparr>dec_sign = neg, dec_int = nat_of_digits intpart, dec_exp = 0\<rparr>
         | c # fracpart \<Rightarrow>
             if c = CHR ''.'' \<and> list_all is_digit fracpart \<and> intpart @ fracpart \<noteq> []
             then Some \<lparr>dec_sign = neg, dec_int = nat_of_digits (intpart @ fracpart),
                        dec_exp = - int (length fracpart)\<rparr>
             else None)"

text \<open>\<^verbatim>\<open>not amount\<close> and \<^verbatim>\<open>amount < 0\<close>, \<^verbatim>\<open>amount <= 0\<close>: comparisons are exact.\<close>

definition dec_is_zero :: "decimal \<Rightarrow> bool" where
  "dec_is_zero d = (dec_int d = 0)"

definition dec_negative :: "decimal \<Rightarrow> bool" where
  "dec_negative d = (dec_sign d \<and> dec_int d \<noteq> 0)"

text \<open>The default arithmetic context of the \<^verbatim>\<open>decimal\<close> module: 28 significant digits,
  rounding half to even, exponent limits \<open>\<plusminus> 999999\<close>, the \<^verbatim>\<open>Overflow\<close> signal raises.\<close>

definition prec :: nat where "prec = 28"
definition Etop :: int where "Etop = 999999 - 28 + 1"
definition Etiny :: int where "Etiny = - 999999 - 28 + 1"

definition ndigits :: "nat \<Rightarrow> nat" where
  "ndigits n = length (str_nat n)"

text \<open>\<^verbatim>\<open>abs(amount)\<close>. Unlike the constructor, \<^verbatim>\<open>abs\<close> is an arithmetic operation: the
  result is rounded to the context (the library's \<^verbatim>\<open>_fix\<close>). A coefficient longer
  than \<open>prec\<close> digits loses its last digits, a result above the exponent limit raises
  \<^verbatim>\<open>decimal.Overflow\<close> (\<open>None\<close>), one below the lower limit is rounded towards zero's
  exponent. The sign of the result is positive.\<close>

definition dec_abs :: "decimal \<Rightarrow> decimal option" where
  "dec_abs d =
     (if dec_int d = 0
      then Some \<lparr>dec_sign = False, dec_int = 0, dec_exp = min (max (dec_exp d) Etiny) 999999\<rparr>
      else
        let exp_min0 = int (ndigits (dec_int d)) + dec_exp d - int prec
        in if exp_min0 > Etop then None
           else
             let exp_min = max exp_min0 Etiny
             in if dec_exp d < exp_min then
                  (let k = nat (exp_min - dec_exp d);
                       kept = dec_int d div 10 ^ k;
                       rest = dec_int d mod 10 ^ k;
                       up = (2 * rest > 10 ^ k \<or> (2 * rest = 10 ^ k \<and> odd kept))
                   in if up then
                        (if ndigits (kept + 1) > prec
                         then (if exp_min + 1 > Etop then None
                               else Some \<lparr>dec_sign = False, dec_int = (kept + 1) div 10,
                                          dec_exp = exp_min + 1\<rparr>)
                         else Some \<lparr>dec_sign = False, dec_int = kept + 1, dec_exp = exp_min\<rparr>)
                      else Some \<lparr>dec_sign = False, dec_int = kept, dec_exp = exp_min\<rparr>)
                else Some \<lparr>dec_sign = False, dec_int = dec_int d, dec_exp = dec_exp d\<rparr>)"

text \<open>The characters \<^verbatim>\<open>re.sub(r'[^\d.\-\+]', '', ...)\<close> keeps.\<close>

definition amount_char :: "char \<Rightarrow> bool" where
  "amount_char c = (is_digit c \<or> c = CHR ''.'' \<or> c = CHR ''-'' \<or> c = CHR ''+'')"

text \<open>\<^verbatim>\<open>_parse_amount\<close>. Every exception of the conversion and of \<^verbatim>\<open>abs\<close> is caught by
  \<^verbatim>\<open>except Exception: return None\<close>.\<close>

definition parse_amount :: "string \<Rightarrow> bool \<Rightarrow> decimal option" where
  "parse_amount amount_str allow_negative =
     (if amount_str = [] \<or> strip amount_str = [] then None
      else
        let cleaned = filter amount_char (strip amount_str)
        in if cleaned = [] then None
           else (case Decimal cleaned of
                   None \<Rightarrow> None
                 | Some amount \<Rightarrow>
                     if \<not> allow_negative \<and> dec_negative amount then dec_abs amount
                     else Some amount))"

section \<open>Row extractors and the table loop (table\_parser.py)\<close>

text \<open>A raised Python exception, as the text \<^verbatim>\<open>str(e)\<close> gives for it. Only instances of
  \<^verbatim>\<open>Exception\<close> are modelled: they are what \<^verbatim>\<open>except Exception\<close> catches.\<close>

type_synonym exn = string

text \<open>Modelled from the spec: the transaction records of \<^verbatim>\<open>app.models.transaction\<close>
  (CapitalCall, Distribution, Adjustment), with the fields the extractors pass, in the
  order they pass them.\<close>

datatype transaction =
    CapitalCall int datetime string decimal string
  | Distribution int datetime string bool decimal string
  | Adjustment int datetime string string decimal bool string

text \<open>Modelled from the spec: the persistence session (\<^verbatim>\<open>app.db.session.SessionLocal\<close>),
  a record store that accepts a record and supports an explicit commit of the batch.
  \<open>commit_error\<close> is the failure of the store, if any: with \<open>Some msg\<close> every commit
  raises an exception whose text is \<open>msg\<close>. \<open>closed\<close> records \<^verbatim>\<open>db.close()\<close>.\<close>

record session =
  pending :: "transaction list"
  committed :: "transaction list"
  commit_error :: "string option"
  closed :: bool

definition db_add :: "transaction \<Rightarrow> session \<Rightarrow> session" where
  "db_add t db = db\<lparr>pending := pending db @ [t]\<rparr>"

definition db_commit :: "session \<Rightarrow> (exn + unit) \<times> session" where
  "db_commit db =
     (case commit_error db of
        Some msg \<Rightarrow> (Inl msg, db)
      | None \<Rightarrow> (Inr (), db\<lparr>committed := committed db @ pending db, pending := []\<rparr>))"


text \<open>\<^verbatim>\<open>_find_header_row\<close>: the first of the first three rows whose text has a header
  word, else row 0.\<close>

definition header_keywords :: "string list" where
  "header_keywords = [''date'', ''amount'', ''type'', ''description'']"

definition find_header_row :: "table \<Rightarrow> nat" where
  "find_header_row table =
     (case find (\<lambda>(idx, row). list_ex (contains (join '' '' (map lower row))) header_keywords)
             (enumerate 0 (take 3 table)) of
        Some (idx, row) \<Rightarrow> idx
      | None \<Rightarrow> 0)"

text \<open>\<^verbatim>\<open>_find_column\<close>: the first header cell that contains one of the names.\<close>

definition find_column :: "string list \<Rightarrow> string list \<Rightarrow> nat option" where
  "find_column headers possible_names =
     map_option fst
       (find (\<lambda>(idx, header). list_ex (contains header) possible_names) (enumerate 0 headers))"

text \<open>The optional type cell:
  \<^verbatim>\<open>row[type_col].strip() if type_col is not None and len(row) > type_col else placeholder\<close>.\<close>

definition type_label :: "nat option \<Rightarrow> string list \<Rightarrow> string \<Rightarrow> string" where
  "type_label type_col row placeholder =
     (case type_col of
        Some tc \<Rightarrow> if length row > tc then strip (row ! tc) else placeholder
      | None \<Rightarrow> placeholder)"

text \<open>The body of the row loop of \<^verbatim>\<open>_parse_capital_calls\<close>, on the count and the
  session. Both cells read are inside the row by the length test, so nothing in the
  \<^verbatim>\<open>try\<close> block raises here.\<close>

definition capital_call_row ::
  "int \<Rightarrow> nat \<Rightarrow> nat \<Rightarrow> nat option \<Rightarrow> string list \<Rightarrow> nat \<times> session \<Rightarrow> nat \<times> session" where
  "capital_call_row fund_id date_col amount_col type_col row st =
     (if length row \<le> max date_col amount_col then st
      else case parse_date (strip (row ! date_col)) of
        None \<Rightarrow> st
      | Some call_date \<Rightarrow>
          (case parse_amount (strip (row ! amount_col)) False of
             None \<Rightarrow> st
           | Some amount \<Rightarrow>
               if dec_is_zero amount \<or> dec_negative amount then st
               else
                 let call_type = type_label type_col row ''Capital Call''
                 in (fst st + 1,
                     db_add (CapitalCall fund_id call_date call_type amount call_type) (snd st))))"

text \<open>\<^verbatim>\<open>_parse_capital_calls\<close>. The result is the count, or the exception that leaves
  the function (the commit's; the header row read of an empty table).\<close>

definition parse_capital_calls :: "table \<Rightarrow> session \<Rightarrow> int \<Rightarrow> (exn + nat) \<times> session" where
  "parse_capital_calls table db fund_id =
     (let header_idx = find_header_row table
      in if length table \<le> header_idx then (Inl ''list index out of range'', db)
         else
           let headers = map (\<lambda>cell. strip (lower cell)) (table ! header_idx);
               date_col = find_column headers [''date'', ''call date'', ''contribution date''];
               amount_col = find_column headers [''amount'', ''call amount'', ''contribution''];
               type_col = find_column headers [''type'', ''call type'', ''description'']
           in case (date_col, amount_col) of
                (Some dc, Some ac) \<Rightarrow>
                  (let st = fold (capital_call_row fund_id dc ac type_col)
                              (drop (header_idx + 1) table) (0, db)
                   in case db_commit (snd st) of
                        (Inl e, db') \<Rightarrow> (Inl e, db')
                      | (Inr u, db') \<Rightarrow> (Inr (fst st), db'))
              | _ \<Rightarrow> (Inr 0, db))"

text \<open>The row loop of \<^verbatim>\<open>_parse_distributions\<close>.\<close>

definition distribution_row ::
  "int \<Rightarrow> nat \<Rightarrow> nat \<Rightarrow> nat option \<Rightarrow> nat option \<Rightarrow> string list \<Rightarrow> nat \<times> session
   \<Rightarrow> nat \<times> session" where
  "distribution_row fund_id date_col amount_col type_col recallable_col row st =
     (if length row \<le> max date_col amount_col then st
      else case parse_date (strip (row ! date_col)) of
        None \<Rightarrow> st
      | Some distribution_date \<Rightarrow>
          (case parse_amount (strip (row ! amount_col)) False of
             None \<Rightarrow> st
           | Some amount \<Rightarrow>
               if dec_is_zero amount \<or> dec_negative amount then st
               else
                 let dist_type = type_label type_col row ''Distribution'';
                     is_recallable =
                       (case recallable_col of
                          Some rc \<Rightarrow>
                            length row > rc \<and>
                            lower (strip (row ! rc)) \<in> set [''yes'', ''true'', ''y'', ''1'']
                        | None \<Rightarrow> False)
                 in (fst st + 1,
                     db_add (Distribution fund_id distribution_date dist_type is_recallable
                               amount dist_type) (snd st))))"

definition parse_distributions :: "table \<Rightarrow> session \<Rightarrow> int \<Rightarrow> (exn + nat) \<times> session" where
  "parse_distributions table db fund_id =
     (let header_idx = find_header_row table
      in if length table \<le> header_idx then (Inl ''list index out of range'', db)
         else
           let headers = map (\<lambda>cell. strip (lower cell)) (table ! header_idx);
               date_col = find_column headers [''date'', ''distribution date'', ''payment date''];
               amount_col = find_column headers [''amount'', ''distribution'', ''payment''];
               type_col = find_column headers [''type'', ''distribution type'', ''description''];
               recallable_col = find_column headers [''recallable'', ''recall'', ''is recallable'']
           in case (date_col, amount_col) of
                (Some dc, Some ac) \<Rightarrow>
                  (let st = fold (distribution_row fund_id dc ac type_col recallable_col)
                              (drop (header_idx + 1) table) (0, db)
                   in case db_commit (snd st) of
                        (Inl e, db') \<Rightarrow> (Inl e, db')
                      | (Inr u, db') \<Rightarrow> (Inr (fst st), db'))
              | _ \<Rightarrow> (Inr 0, db))"

text \<open>The row loop of \<^verbatim>\<open>_parse_adjustments\<close>: the amount keeps its sign, and only a failed
  parse skips the row.\<close>

definition adjustment_row ::
  "int \<Rightarrow> nat \<Rightarrow> nat \<Rightarrow> nat option \<Rightarrow> string list \<Rightarrow> nat \<times> session \<Rightarrow> nat \<times> session" where
  "adjustment_row fund_id date_col amount_col type_col row st =
     (if length row \<le> max date_col amount_col then st
      else case parse_date (strip (row ! date_col)) of
        None \<Rightarrow> st
      | Some adjustment_date \<Rightarrow>
          (case parse_amount (strip (row ! amount_col)) True of
             None \<Rightarrow> st
           | Some amount \<Rightarrow>
               let adj_type = type_label type_col row ''Adjustment'';
                   is_contribution_adjustment =
                     (contains (lower adj_type) ''capital'' \<or> contains (lower adj_type) ''contribution'')
               in (fst st + 1,
                   db_add (Adjustment fund_id adjustment_date adj_type adj_type amount
                             is_contribution_adjustment adj_type) (snd st))))"

definition parse_adjustments :: "table \<Rightarrow> session \<Rightarrow> int \<Rightarrow> (exn + nat) \<times> session" where
  "parse_adjustments table db fund_id =
     (let header_idx = find_header_row table
      in if length table \<le> header_idx then (Inl ''list index out of range'', db)
         else
           let headers = map (\<lambda>cell. strip (lower cell)) (table ! header_idx);
               date_col = find_column headers [''date'', ''adjustment date''];
               amount_col = find_column headers [''amount'', ''adjustment''];
               type_col = find_column headers [''type'', ''adjustment type'', ''category'']
           in case (date_col, amount_col) of
                (Some dc, Some ac) \<Rightarrow>
                  (let st = fold (adjustment_row fund_id dc ac type_col)
                              (drop (header_idx + 1) table) (0, db)
                   in case db_commit (snd st) of
                        (Inl e, db') \<Rightarrow> (Inl e, db')
                      | (Inr u, db') \<Rightarrow> (Inr (fst st), db'))
              | _ \<Rightarrow> (Inr 0, db))"

text \<open>The \<^verbatim>\<open>stats\<close> dictionary of \<^verbatim>\<open>parse_tables\<close>.\<close>

record stats =
  capital_calls :: nat
  distributions :: nat
  adjustments :: nat
  errors :: "string list"

definition error_message :: "nat \<Rightarrow> exn \<Rightarrow> string" where
  "error_message table_idx e = ''Error parsing table '' @ str_nat table_idx @ '': '' @ e"

text \<open>The body of \<^verbatim>\<open>for table_idx, table in enumerate(tables)\<close>: the skip of short
  tables, then the dispatch inside \<^verbatim>\<open>try ... except Exception\<close>.\<close>

fun parse_table_step ::
  "int \<Rightarrow> nat \<times> table \<Rightarrow> stats \<times> session \<Rightarrow> stats \<times> session" where
  "parse_table_step fund_id (table_idx, table) (st, db) =
     (if table = [] \<or> length table < 2 then (st, db)
      else case classify_table table of
        Some capital_call \<Rightarrow>
          (case parse_capital_calls table db fund_id of
             (Inr count, db') \<Rightarrow> (st\<lparr>capital_calls := capital_calls st + count\<rparr>, db')
           | (Inl e, db') \<Rightarrow> (st\<lparr>errors := errors st @ [error_message table_idx e]\<rparr>, db'))
      | Some distribution \<Rightarrow>
          (case parse_distributions table db fund_id of
             (Inr count, db') \<Rightarrow> (st\<lparr>distributions := distributions st + count\<rparr>, db')
           | (Inl e, db') \<Rightarrow> (st\<lparr>errors := errors st @ [error_message table_idx e]\<rparr>, db'))
      | Some adjustment \<Rightarrow>
          (case parse_adjustments table db fund_id of
             (Inr count, db') \<Rightarrow> (st\<lparr>adjustments := adjustments st + count\<rparr>, db')
           | (Inl e, db') \<Rightarrow> (st\<lparr>errors := errors st @ [error_message table_idx e]\<rparr>, db'))
      | None \<Rightarrow> (st, db))"

definition empty_stats :: stats where
  "empty_stats = \<lparr>capital_calls = 0, distributions = 0, adjustments = 0, errors = []\<rparr>"

text \<open>\<^verbatim>\<open>parse_tables\<close>: the statistics, and the session after the commits.\<close>

definition parse_tables :: "table list \<Rightarrow> session \<Rightarrow> int \<Rightarrow> stats \<times> session" where
  "parse_tables tables db fund_id =
     fold (parse_table_step fund_id) (enumerate 0 tables) (empty_stats, db)"

section \<open>The document pipeline (document\_processor.py)\<close>









section \<open>Auxiliary notions for the proofs\<close>

text \<open>The indices of the chunks appended so far run from \<open>s\<close> up to the counter.\<close>

fun idx_ok :: "nat \<Rightarrow> chunker_state \<Rightarrow> bool" where
  "idx_ok s (chunks, cur, idx) = (map chunk_index chunks = [s..<idx] \<and> s \<le> idx)"

text \<open>Running a loop after earlier chunks \<open>pre\<close> and from a counter \<open>k\<close> higher.\<close>

definition shift_index :: "nat \<Rightarrow> chunk \<Rightarrow> chunk" where
  "shift_index k c = c\<lparr>chunk_index := chunk_index c + k\<rparr>"

fun rebase :: "chunk list \<Rightarrow> nat \<Rightarrow> chunker_state \<Rightarrow> chunker_state" where
  "rebase pre k (chunks, cur, idx) = (pre @ map (shift_index k) chunks, cur, idx + k)"

fun rebase_out :: "chunk list \<Rightarrow> nat \<Rightarrow> chunk list \<times> nat \<Rightarrow> chunk list \<times> nat" where
  "rebase_out pre k (chunks, idx) = (pre @ map (shift_index k) chunks, idx + k)"

text \<open>What a chunk says apart from its index.\<close>

definition text_page :: "chunk \<Rightarrow> string \<times> int" where
  "text_page c = (text c, page c)"

text \<open>Two outcomes of the table loop that agree in everything but the texts of the
  error entries.\<close>

definition same_counts :: "stats \<times> session \<Rightarrow> stats \<times> session \<Rightarrow> bool" where
  "same_counts a b =
     (capital_calls (fst a) = capital_calls (fst b) \<and>
      distributions (fst a) = distributions (fst b) \<and>
      adjustments (fst a) = adjustments (fst b) \<and>
      length (errors (fst a)) = length (errors (fst b)) \<and>
      snd a = snd b)"

text \<open>The whitespace-delimited tokens held by a loop state: those of the chunks appended
  so far, then those of the buffer.\<close>

definition tokens_of :: "chunker_state \<Rightarrow> string list" where
  "tokens_of st = concat (map (\<lambda>c. split_ws (text c)) (fst st)) @ split_ws (fst (snd st))"

text \<open>A text in which a token longer than \<open>sz\<close> is the whole text.\<close>

definition whole_token :: "nat \<Rightarrow> string \<Rightarrow> bool" where
  "whole_token sz t = (\<forall>w\<in>set (split_ws t). sz < length w \<longrightarrow> t = w)"


text \<open>The tokens of a chunk that were carried into it: none, or the tokens of a character
  suffix of the text \<open>t\<close> of the chunk before it that lies within its last \<open>ov\<close> characters
  (anywhere in it when \<open>ov\<close> is 0, where \<^verbatim>\<open>text[-0:]\<close> is the whole text).\<close>

definition carried_ok :: "nat \<Rightarrow> string option \<Rightarrow> string list \<Rightarrow> bool" where
  "carried_ok ov prev carried =
     (carried = [] \<or>
      (case prev of
         None \<Rightarrow> False
       | Some t \<Rightarrow>
           \<exists>n\<in>set [0..<Suc (length t)].
             carried = split_ws (drop n t) \<and> (ov = 0 \<or> length t - n \<le> ov)))"

text \<open>The chunk texts \<open>ts\<close> of one page, each split into the tokens carried from the chunk
  before it and the tokens that are new. \<open>prev\<close> is the text of the chunk before the first
  one, if any.\<close>

fun decomposes ::
  "nat \<Rightarrow> string option \<Rightarrow> string list \<Rightarrow> (string list \<times> string list) list \<Rightarrow> bool" where
  "decomposes ov prev [] [] = True"
| "decomposes ov prev (t # ts) ((carried, fresh) # ps) =
     (split_ws t = carried @ fresh \<and> carried_ok ov prev carried \<and> decomposes ov (Some t) ts ps)"
| "decomposes ov prev [] (p # ps) = False"
| "decomposes ov prev (t # ts) [] = False"

definition last_text :: "string option \<Rightarrow> string list \<Rightarrow> string option" where
  "last_text prev ts = (if ts = [] then prev else Some (last ts))"

text \<open>The loop state of a page after the tokens \<open>seen\<close>: the chunks appended so far
  decompose, the buffer holds carried tokens and new ones, and the new tokens of the chunks
  and of the buffer are \<open>seen\<close>.\<close>

definition page_inv :: "nat \<Rightarrow> string list \<Rightarrow> chunker_state \<Rightarrow> bool" where
  "page_inv ov seen st =
     (\<exists>ps c f. decomposes ov None (map text (fst st)) ps \<and>
        split_ws (fst (snd st)) = c @ f \<and>
        carried_ok ov (last_text None (map text (fst st))) c \<and>
        concat (map snd ps) @ f = seen)"

text \<open>Every chunk appended so far carries the page number \<open>pg\<close>.\<close>

fun pages_ok :: "int \<Rightarrow> chunker_state \<Rightarrow> bool" where
  "pages_ok pg (chunks, cur, idx) = (\<forall>c\<in>set chunks. page c = pg)"

text \<open>A page of one paragraph that is not blank and, stripped, no longer than the
  maximum size.\<close>

definition fits_one_chunk :: "settings \<Rightarrow> page_content \<Rightarrow> bool" where
  "fits_one_chunk cfg pc =
     (strip (text pc) \<noteq> [] \<and> length (strip (text pc)) \<le> CHUNK_SIZE cfg \<and>
      split_nlnl (text pc) = [text pc])"



text \<open>An extractor that returned its count with a store that does not fail, and an
  outcome of the table loop with no error entry and such a store.\<close>

definition committed_ok :: "(exn + nat) \<times> session \<Rightarrow> bool" where
  "committed_ok r = ((\<exists>n. fst r = Inr n) \<and> commit_error (snd r) = None)"

definition no_failure :: "stats \<times> session \<Rightarrow> bool" where
  "no_failure a = (errors (fst a) = [] \<and> commit_error (snd a) = None)"


section \<open>The chunker: indices\<close>

lemma chunk_index_mk_chunk [simp]: "chunk_index (mk_chunk t p i) = i"
  by (simp add: mk_chunk_def)

lemma text_mk_chunk [simp]: "text (mk_chunk t p i) = t"
  by (simp add: mk_chunk_def)

lemma page_mk_chunk [simp]: "page (mk_chunk t p i) = p"
  by (simp add: mk_chunk_def)

lemma word_step_idx_ok: "idx_ok s st \<Longrightarrow> idx_ok s (word_step cfg pg w st)"
  by (cases st) auto

lemma fold_word_step_idx_ok: "idx_ok s st \<Longrightarrow> idx_ok s (fold (word_step cfg pg) ws st)"
  by (induction ws arbitrary: st) (simp_all add: word_step_idx_ok)

lemma sentence_step_idx_ok: "idx_ok s st \<Longrightarrow> idx_ok s (sentence_step cfg pg x st)"
proof (cases st)
  case (fields chunks cur idx)
  assume ok: "idx_ok s st"
  have a: "idx_ok s (chunks @ [mk_chunk (strip cur) pg idx], [], idx + 1)"
    using ok fields by simp
  have b: "idx_ok s (chunks, [], idx)"
    using ok fields by simp
  show ?thesis
    using ok fields fold_word_step_idx_ok [OF a] fold_word_step_idx_ok [OF b]
    by (simp add: Let_def)
qed

lemma fold_sentence_step_idx_ok:
  "idx_ok s st \<Longrightarrow> idx_ok s (fold (sentence_step cfg pg) xs st)"
  by (induction xs arbitrary: st) (simp_all add: sentence_step_idx_ok)

lemma flush_rest_idx_ok:
  "idx_ok s st \<Longrightarrow>
   map chunk_index (fst (flush_rest pg st)) = [s..<snd (flush_rest pg st)] \<and> s \<le> snd (flush_rest pg st)"
  by (cases st) auto

lemma split_large_paragraph_indices:
  "map chunk_index (split_large_paragraph cfg p pg i) =
     [i..<i + length (split_large_paragraph cfg p pg i)]"
proof -
  let ?st = "fold (sentence_step cfg pg) (split_sentences p) ([], [], i)"
  have "idx_ok i ?st"
    by (rule fold_sentence_step_idx_ok) simp
  from flush_rest_idx_ok [OF this, of pg]
  have m: "map chunk_index (fst (flush_rest pg ?st)) = [i..<snd (flush_rest pg ?st)]"
    and le: "i \<le> snd (flush_rest pg ?st)" by simp_all
  from m have "length (fst (flush_rest pg ?st)) = snd (flush_rest pg ?st) - i"
    by (metis length_map length_upt)
  with m le show ?thesis
    by (simp add: split_large_paragraph_def)
qed

lemma paragraph_step_idx_ok: "idx_ok s st \<Longrightarrow> idx_ok s (paragraph_step cfg pg x st)"
proof (cases st)
  case (fields chunks cur idx)
  assume ok: "idx_ok s st"
  have "[s..<idx] @ [idx..<idx + n] = [s..<idx + n]" for n
    using ok fields upt_add_eq_append [of s idx n] by simp
  then show ?thesis
    using ok fields by (simp add: Let_def split_large_paragraph_indices)
qed

lemma fold_paragraph_step_idx_ok:
  "idx_ok s st \<Longrightarrow> idx_ok s (fold (paragraph_step cfg pg) xs st)"
  by (induction xs arbitrary: st) (simp_all add: paragraph_step_idx_ok)

lemma page_step_indices:
  assumes "map chunk_index (fst st) = [0..<snd st]"
  shows "map chunk_index (fst (page_step cfg pc st)) = [0..<snd (page_step cfg pc st)]"
proof (cases st)
  case (Pair chunks idx)
  have "idx_ok 0 (fold (paragraph_step cfg (page pc)) (split_nlnl (text pc)) (chunks, [], idx))"
    by (rule fold_paragraph_step_idx_ok) (use assms Pair in simp)
  from flush_rest_idx_ok [OF this] show ?thesis
    using Pair by simp
qed

lemma fold_page_step_indices:
  "map chunk_index (fst st) = [0..<snd st] \<Longrightarrow>
   map chunk_index (fst (fold (page_step cfg) ps st)) = [0..<snd (fold (page_step cfg) ps st)]"
  by (induction ps arbitrary: st) (simp_all add: page_step_indices)

text \<open>
  Claim C2. The \<open>chunk_index\<close> fields of the chunks \<open>chunk_text\<close> produces, in production
  order over the whole document, are exactly 0, 1, 2, ...: whatever the pages and whichever
  tier (paragraph, sentence, word) appended each chunk.
\<close>

theorem chunk_indices_contiguous:
  "map chunk_index (chunk_text cfg text_content) = [0..<length (chunk_text cfg text_content)]"
proof -
  let ?r = "fold (page_step cfg) text_content ([], 0)"
  have m: "map chunk_index (fst ?r) = [0..<snd ?r]"
    by (rule fold_page_step_indices) simp
  then have "length (fst ?r) = snd ?r"
    by (metis length_map length_upt minus_nat.diff_0)
  with m show ?thesis
    by (simp add: chunk_text_def)
qed

lemma shift_index_mk_chunk [simp]: "shift_index k (mk_chunk t p i) = mk_chunk t p (i + k)"
  by (simp add: shift_index_def mk_chunk_def)

lemma text_shift_index [simp]: "text (shift_index k c) = text c"
  by (simp add: shift_index_def)

lemma page_shift_index [simp]: "page (shift_index k c) = page c"
  by (simp add: shift_index_def)

lemma word_step_rebase:
  "word_step cfg pg w (rebase pre k st) = rebase pre k (word_step cfg pg w st)"
  by (cases st) simp

lemma fold_word_step_rebase:
  "fold (word_step cfg pg) ws (rebase pre k st) = rebase pre k (fold (word_step cfg pg) ws st)"
  by (induction ws arbitrary: st) (simp_all add: word_step_rebase)

lemma sentence_step_rebase:
  "sentence_step cfg pg x (rebase pre k st) = rebase pre k (sentence_step cfg pg x st)"
proof (cases st)
  case (fields chunks cur idx)
  have a: "fold (word_step cfg pg) ws (pre @ map (shift_index k) cs, [], i + k) =
           rebase pre k (fold (word_step cfg pg) ws (cs, [], i))" for ws cs i
    using fold_word_step_rebase [of cfg pg ws pre k "(cs, [], i)"] by simp
  show ?thesis
    using fields a [of _ chunks idx] a [of _ "chunks @ [mk_chunk (strip cur) pg idx]" "idx + 1"]
    by (simp add: Let_def)
qed

lemma fold_sentence_step_rebase:
  "fold (sentence_step cfg pg) xs (rebase pre k st) =
   rebase pre k (fold (sentence_step cfg pg) xs st)"
  by (induction xs arbitrary: st) (simp_all add: sentence_step_rebase)

lemma flush_rest_rebase:
  "flush_rest pg (rebase pre k st) = rebase_out pre k (flush_rest pg st)"
  by (cases st) simp

lemma split_large_paragraph_shift:
  "split_large_paragraph cfg p pg (i + k) = map (shift_index k) (split_large_paragraph cfg p pg i)"
proof -
  have "fold (sentence_step cfg pg) (split_sentences p) ([], [], i + k) =
        rebase [] k (fold (sentence_step cfg pg) (split_sentences p) ([], [], i))"
    using fold_sentence_step_rebase [of cfg pg _ "[]" k "([], [], i)"] by simp
  then show ?thesis
    by (cases "flush_rest pg (fold (sentence_step cfg pg) (split_sentences p) ([], [], i))")
       (simp add: split_large_paragraph_def flush_rest_rebase)
qed

lemma paragraph_step_rebase:
  "paragraph_step cfg pg x (rebase pre k st) = rebase pre k (paragraph_step cfg pg x st)"
  by (cases st) (simp add: Let_def split_large_paragraph_shift)

lemma fold_paragraph_step_rebase:
  "fold (paragraph_step cfg pg) xs (rebase pre k st) =
   rebase pre k (fold (paragraph_step cfg pg) xs st)"
  by (induction xs arbitrary: st) (simp_all add: paragraph_step_rebase)

lemma page_step_rebase:
  "page_step cfg pc (chunks, idx) = rebase_out chunks idx (page_step cfg pc ([], 0))"
proof -
  have "fold (paragraph_step cfg (page pc)) (split_nlnl (text pc)) (chunks, [], idx) =
        rebase chunks idx (fold (paragraph_step cfg (page pc)) (split_nlnl (text pc)) ([], [], 0))"
    using fold_paragraph_step_rebase [of cfg "page pc" _ chunks idx "([], [], 0)"] by simp
  then show ?thesis
    by (simp add: flush_rest_rebase)
qed

lemma text_page_shift_index [simp]: "text_page (shift_index k c) = text_page c"
  by (simp add: text_page_def)

lemma fold_page_step_text_page:
  "map text_page (fst (fold (page_step cfg) ps st)) =
   map text_page (fst st) @ concat (map (\<lambda>p. map text_page (chunk_text cfg [p])) ps)"
proof (induction ps arbitrary: st)
  case Nil
  show ?case by simp
next
  case (Cons p ps)
  obtain chunks idx where st: "st = (chunks, idx)" by (cases st)
  obtain cs j where one: "page_step cfg p ([], 0) = (cs, j)" by (cases "page_step cfg p ([], 0)")
  have "map text_page (fst (page_step cfg p st)) = map text_page chunks @ map text_page cs"
    using st one page_step_rebase [of cfg p chunks idx] by (simp add: comp_def)
  moreover have "chunk_text cfg [p] = cs"
    using one by (simp add: chunk_text_def)
  ultimately show ?case
    using Cons.IH [of "page_step cfg p st"] st by simp
qed

text \<open>
  Claim C1 (the size bound fails on the code). With maximum size 10 and overlap 2, a page
  with the paragraph \<open>x\<close> followed by the paragraph \<open>Ab. Cd. Ef.\<close> (three sentences of three
  characters, no word or sentence above the maximum) gives a second chunk of 13
  characters: a paragraph that overflows a non-empty buffer is appended to the overlap
  without the split the empty-buffer branch performs.
\<close>

theorem chunk_text_exceeds_size:
  "map text (chunk_text \<lparr>CHUNK_SIZE = 10, CHUNK_OVERLAP = 2\<rparr>
     [\<lparr>text = ''x'' @ [CHR 0x0A, CHR 0x0A] @ ''Ab. Cd. Ef.'', page = 1\<rparr>])
   = [''x'', ''x Ab. Cd. Ef.''] \<and>
   length ''x Ab. Cd. Ef.'' = 13 \<and>
   split_nlnl (''x'' @ [CHR 0x0A, CHR 0x0A] @ ''Ab. Cd. Ef.'') = [''x'', ''Ab. Cd. Ef.''] \<and>
   split_sentences ''Ab. Cd. Ef.'' = [''Ab.'', ''Cd.'', ''Ef.'']"
  by code_simp

section \<open>Table classification\<close>

lemma scores_of_empty_table:
  "capital_score [] = 0" "distribution_score [] = 0" "adjustment_score [] = 0"
  by (simp_all add: capital_score_def distribution_score_def adjustment_score_def
      keyword_score_def header_text_def capital_call_keywords_def distribution_keywords_def
      adjustment_keywords_def)

text \<open>
  Claim C3. Classification is a function of the table's three keyword scores over its
  first three rows: all three zero gives no category; otherwise the first of capital call,
  distribution, adjustment whose score is the maximum wins. So a table with equally many
  capital-call and distribution keywords, that count maximal and not zero, is a capital
  call table.
\<close>

theorem classify_table_tie_break:
  "(capital_score t = 0 \<and> distribution_score t = 0 \<and> adjustment_score t = 0
      \<longrightarrow> classify_table t = None) \<and>
   (0 < capital_score t \<and> distribution_score t \<le> capital_score t
      \<and> adjustment_score t \<le> capital_score t \<longrightarrow> classify_table t = Some capital_call) \<and>
   (capital_score t < distribution_score t \<and> adjustment_score t \<le> distribution_score t
      \<longrightarrow> classify_table t = Some distribution) \<and>
   (capital_score t < adjustment_score t \<and> distribution_score t < adjustment_score t
      \<longrightarrow> classify_table t = Some adjustment)"
proof (cases "t = []")
  case True
  then show ?thesis
    by (simp add: scores_of_empty_table classify_table_def)
next
  case False
  then show ?thesis
    by (auto simp: classify_table_def Let_def max_def)
qed

text \<open>Witness for C3: a header with one capital-call keyword (call date) and one
  distribution keyword.\<close>

theorem classify_table_tie_break_witness:
  "capital_score [[''Call Date'', ''Distribution'']] = 1 \<and>
   distribution_score [[''Call Date'', ''Distribution'']] = 1 \<and>
   adjustment_score [[''Call Date'', ''Distribution'']] = 0 \<and>
   classify_table [[''Call Date'', ''Distribution'']] = Some capital_call"
proof -
  have c: "capital_score [[''Call Date'', ''Distribution'']] = 1" by code_simp
  have d: "distribution_score [[''Call Date'', ''Distribution'']] = 1" by code_simp
  have a: "adjustment_score [[''Call Date'', ''Distribution'']] = 0" by code_simp
  show ?thesis
    using classify_table_tie_break [of "[[''Call Date'', ''Distribution'']]"] c d a by simp
qed

section \<open>Amounts\<close>

lemma isspace_not_amount_char: "isspace c \<Longrightarrow> \<not> amount_char c"
  by (auto simp: isspace_def amount_char_def is_digit_def)

lemma filter_dropWhile_disjoint:
  "(\<And>x. Q x \<Longrightarrow> \<not> P x) \<Longrightarrow> filter P (dropWhile Q xs) = filter P xs"
  by (induction xs) auto

lemma filter_amount_char_strip: "filter amount_char (strip s) = filter amount_char s"
proof -
  have d: "filter amount_char (dropWhile isspace xs) = filter amount_char xs" for xs
    by (rule filter_dropWhile_disjoint) (rule isspace_not_amount_char)
  have "filter amount_char (strip s) = rev (filter amount_char (dropWhile isspace (rev (dropWhile isspace s))))"
    unfolding strip_def by (rule rev_filter [symmetric])
  also have "\<dots> = rev (filter amount_char (rev (dropWhile isspace s)))"
    by (simp only: d)
  also have "\<dots> = filter amount_char (dropWhile isspace s)"
    by (simp add: rev_filter [symmetric])
  finally show ?thesis
    by (simp only: d)
qed

lemma dropWhile_none: "(\<And>x. x \<in> set xs \<Longrightarrow> \<not> P x) \<Longrightarrow> dropWhile P xs = xs"
  by (cases xs) auto

lemma strip_without_space:
  assumes "\<And>x. x \<in> set xs \<Longrightarrow> \<not> isspace x"
  shows "strip xs = xs"
proof -
  have "dropWhile isspace xs = xs"
    by (rule dropWhile_none) (rule assms)
  moreover have "dropWhile isspace (rev xs) = rev xs"
    by (rule dropWhile_none) (use assms in simp)
  ultimately show ?thesis
    by (simp add: strip_def)
qed

lemma strip_filter_amount_char: "strip (filter amount_char s) = filter amount_char s"
  by (rule strip_without_space) (use isspace_not_amount_char in auto)

lemma strip_Nil [simp]: "strip [] = []"
  by (simp add: strip_def)

lemma parse_amount_cleaned:
  "parse_amount s b =
     (if filter amount_char s = [] then None
      else case Decimal (filter amount_char s) of
             None \<Rightarrow> None
           | Some a \<Rightarrow> if \<not> b \<and> dec_negative a then dec_abs a else Some a)"
proof (cases "strip s = []")
  case True
  then have "filter amount_char s = []"
    using filter_amount_char_strip [of s] by simp
  with True show ?thesis
    by (simp add: parse_amount_def)
next
  case False
  then have "s \<noteq> []" by auto
  with False show ?thesis
    by (simp add: parse_amount_def Let_def filter_amount_char_strip)
qed

lemma filter_dollars: "filter amount_char ''$1,234.56'' = ''1234.56''"
  by code_simp

lemma Decimal_dollars:
  "Decimal ''1234.56'' = Some \<lparr>dec_sign = False, dec_int = 123456, dec_exp = - 2\<rparr>"
  by (simp add: Decimal_def is_digit_def nat_of_digits_def digit_value_def)

lemma parse_amount_dollars:
  "parse_amount ''$1,234.56'' False = Some \<lparr>dec_sign = False, dec_int = 123456, dec_exp = - 2\<rparr>"
  by (simp only: parse_amount_cleaned filter_dollars Decimal_dollars)
     (simp add: dec_negative_def)

lemma parse_amount_parens:
  "parse_amount ''(500)'' True = Some \<lparr>dec_sign = False, dec_int = 500, dec_exp = 0\<rparr>"
  by code_simp

lemma filter_parens: "filter amount_char ''(500)'' = ''500''"
  by code_simp

text \<open>
  Claim C5. \<open>parse_amount\<close> depends on its text only through the characters that are a
  digit, a point or a sign: it gives none when no such character is there, and otherwise
  converts the kept characters. \<^verbatim>\<open>$1,234.56\<close> gives 1234.56, and \<^verbatim>\<open>(500)\<close> with
  \<open>allow_negative\<close> gives what \<^verbatim>\<open>500\<close> gives, the value 500.
\<close>

theorem parse_amount_strips:
  "parse_amount s b = parse_amount (filter amount_char s) b \<and>
   (filter amount_char s = [] \<longrightarrow> parse_amount s b = None) \<and>
   (filter amount_char s \<noteq> [] \<longrightarrow>
      parse_amount s b =
        (case Decimal (filter amount_char s) of
           None \<Rightarrow> None
         | Some a \<Rightarrow> if \<not> b \<and> dec_negative a then dec_abs a else Some a)) \<and>
   map_option dec_value (parse_amount ''$1,234.56'' False) = Some (123456 / 100) \<and>
   filter amount_char ''(500)'' = ''500'' \<and>
   map_option dec_value (parse_amount ''(500)'' True) = Some 500"
proof -
  have "parse_amount s b = parse_amount (filter amount_char s) b"
    by (simp add: parse_amount_cleaned [of s] parse_amount_cleaned [of "filter amount_char s"])
  moreover have "map_option dec_value (parse_amount ''$1,234.56'' False) = Some (123456 / 100)"
    by (simp only: parse_amount_dollars) (simp add: dec_value_def)
  moreover have "map_option dec_value (parse_amount ''(500)'' True) = Some 500"
    by (simp only: parse_amount_parens) (simp add: dec_value_def)
  moreover note filter_parens
  ultimately show ?thesis
    by (simp only: parse_amount_cleaned [of s] simp_thms if_True if_False split: if_splits)
qed

text \<open>Witness for C5: a text with no digit, point or sign.\<close>

theorem parse_amount_strips_witness:
  "filter amount_char ''$ n/a'' = [] \<and> parse_amount ''$ n/a'' True = None"
proof -
  have e: "filter amount_char ''$ n/a'' = []" by code_simp
  from parse_amount_strips [of "''$ n/a''" True]
  have "filter amount_char ''$ n/a'' = [] \<longrightarrow> parse_amount ''$ n/a'' True = None"
    by (rule conjunct2 [THEN conjunct1])
  with e show ?thesis by (simp only: simp_thms)
qed

lemma ndigits_rec: "ndigits n = (if n < 10 then 1 else Suc (ndigits (n div 10)))"
  unfolding ndigits_def by (subst str_nat.simps) simp

lemma ndigits_le: "0 < k \<Longrightarrow> n < 10 ^ k \<Longrightarrow> ndigits n \<le> k"
proof (induction k arbitrary: n)
  case 0
  then show ?case by simp
next
  case (Suc k)
  show ?case
  proof (cases "n < 10")
    case True
    then show ?thesis by (subst ndigits_rec) simp
  next
    case False
    with Suc.prems have k: "0 < k" by (cases k) auto
    from Suc.prems have "n div 10 < 10 ^ k"
      by (simp add: less_mult_imp_div_less mult.commute)
    from Suc.IH [OF k this] False show ?thesis
      by (subst ndigits_rec) simp
  qed
qed

lemma ndigits_gt: "10 ^ k \<le> n \<Longrightarrow> k < ndigits n"
proof (induction k arbitrary: n)
  case 0
  show ?case by (subst ndigits_rec) simp
next
  case (Suc k)
  then have big: "\<not> n < 10"
    by (metis One_nat_def le_trans not_less one_le_numeral one_le_power power_Suc power_one_right mult.right_neutral mult_le_mono2)
  from Suc.prems have "10 ^ k \<le> n div 10"
    by (simp add: less_eq_div_iff_mult_less_eq mult.commute)
  from Suc.IH [OF this] big show ?case
    by (subst ndigits_rec) simp
qed

lemma dec_abs_exact:
  assumes "dec_int d \<noteq> 0" "dec_int d < 10 ^ 28" "- 1000026 \<le> dec_exp d" "dec_exp d \<le> 0"
  shows "dec_abs d = Some \<lparr>dec_sign = False, dec_int = dec_int d, dec_exp = dec_exp d\<rparr>"
proof -
  have "ndigits (dec_int d) \<le> 28"
    by (rule ndigits_le) (use assms in simp_all)
  with assms show ?thesis
    by (simp add: dec_abs_def Let_def prec_def Etop_def Etiny_def)
qed

lemma Decimal_exp_le: "Decimal s = Some d \<Longrightarrow> dec_exp d \<le> 0"
  by (auto simp: Decimal_def Let_def split: list.splits if_splits)

lemma Decimal_Nil [simp]: "Decimal [] = None"
  by (simp add: Decimal_def)

lemma dec_value_abs:
  "dec_value \<lparr>dec_sign = False, dec_int = dec_int d, dec_exp = dec_exp d\<rparr> = \<bar>dec_value d\<bar>"
  by (simp add: dec_value_def abs_mult abs_divide)

lemma filter_minus_fifty: "filter amount_char ''-50'' = ''-50''"
  by code_simp

lemma Decimal_minus_fifty:
  "Decimal ''-50'' = Some \<lparr>dec_sign = True, dec_int = 50, dec_exp = 0\<rparr>"
  by (simp add: Decimal_def is_digit_def nat_of_digits_def digit_value_def)

text \<open>Within the precision of the decimal context the sign is dropped exactly: for a
  negative number of at most 28 significant digits and an exponent not below -1000026 the
  result is the absolute value. A failed conversion gives none, and \<^verbatim>\<open>-50\<close> gives 50.\<close>

lemma parse_amount_drops_sign:
  "(Decimal (filter amount_char s) = Some d \<and> dec_negative d \<and> dec_int d < 10 ^ 28
      \<and> - 1000026 \<le> dec_exp d \<longrightarrow>
      parse_amount s False = Some \<lparr>dec_sign = False, dec_int = dec_int d, dec_exp = dec_exp d\<rparr>
      \<and> map_option dec_value (parse_amount s False) = Some \<bar>dec_value d\<bar>) \<and>
   (Decimal (filter amount_char s) = None \<longrightarrow> parse_amount s b = None) \<and>
   map_option dec_value (parse_amount ''-50'' False) = Some 50"
proof -
  have neg: "parse_amount s False = Some \<lparr>dec_sign = False, dec_int = dec_int d, dec_exp = dec_exp d\<rparr>"
    if h: "Decimal (filter amount_char s) = Some d" "dec_negative d" "dec_int d < 10 ^ 28"
          "- 1000026 \<le> dec_exp d"
  proof -
    have ne: "filter amount_char s \<noteq> []"
      using h(1) by auto
    have "dec_abs d = Some \<lparr>dec_sign = False, dec_int = dec_int d, dec_exp = dec_exp d\<rparr>"
      by (rule dec_abs_exact) (use h Decimal_exp_le [OF h(1)] in \<open>simp_all add: dec_negative_def\<close>)
    with ne h show ?thesis
      by (simp add: parse_amount_cleaned)
  qed
  have fail: "parse_amount s b = None" if "Decimal (filter amount_char s) = None"
    using that by (simp add: parse_amount_cleaned)
  have fifty: "map_option dec_value (parse_amount ''-50'' False) = Some 50"
    by (simp only: parse_amount_cleaned filter_minus_fifty Decimal_minus_fifty)
       (simp add: dec_negative_def dec_abs_def Let_def prec_def Etop_def Etiny_def dec_value_def
          ndigits_rec [of 50] ndigits_rec [of 5])
  show ?thesis
    using neg fail fifty by (simp add: dec_value_abs)
qed

lemma filter_long: "filter amount_char ''-12345678901234567890123456789'' = ''-12345678901234567890123456789''"
  by code_simp

lemma Decimal_long:
  "Decimal ''-12345678901234567890123456789'' =
     Some \<lparr>dec_sign = True, dec_int = 12345678901234567890123456789, dec_exp = 0\<rparr>"
  by (simp add: Decimal_def is_digit_def nat_of_digits_def digit_value_def)

lemma ndigits_long: "ndigits 12345678901234567890123456789 = 29"
proof -
  have "ndigits 12345678901234567890123456789 \<le> 29"
    by (rule ndigits_le) simp_all
  moreover have "28 < ndigits 12345678901234567890123456789"
    by (rule ndigits_gt) simp
  ultimately show ?thesis by simp
qed

lemma ndigits_rounded: "ndigits 1234567890123456789012345679 = 28"
proof -
  have "ndigits 1234567890123456789012345679 \<le> 28"
    by (rule ndigits_le) simp_all
  moreover have "27 < ndigits 1234567890123456789012345679"
    by (rule ndigits_gt) simp
  ultimately show ?thesis by simp
qed

lemma filter_long_positive:
  "filter amount_char ''12345678901234567890123456789'' = ''12345678901234567890123456789''"
  by code_simp

lemma Decimal_long_positive:
  "Decimal ''12345678901234567890123456789'' =
     Some \<lparr>dec_sign = False, dec_int = 12345678901234567890123456789, dec_exp = 0\<rparr>"
  by (simp add: Decimal_def is_digit_def nat_of_digits_def digit_value_def)

text \<open>
  Claim C6 (the absolute value is not what the code returns). The text
  \<^verbatim>\<open>-12345678901234567890123456789\<close> converts to a negative number of 29 digits, and
  without \<open>allow_negative\<close> the result is that number's absolute value rounded to 28
  significant digits, \<open>...790\<close> for \<open>...789\<close>: \<^verbatim>\<open>abs\<close> rounds to the decimal context.
  The paths that return the converted number itself keep all 29 digits: the same text with
  \<open>allow_negative\<close>, and the text without its sign.
\<close>

theorem parse_amount_abs_rounds:
  "Decimal (filter amount_char ''-12345678901234567890123456789'') =
     Some \<lparr>dec_sign = True, dec_int = 12345678901234567890123456789, dec_exp = 0\<rparr> \<and>
   dec_value \<lparr>dec_sign = True, dec_int = 12345678901234567890123456789, dec_exp = 0\<rparr>
     = - 12345678901234567890123456789 \<and>
   map_option dec_value (parse_amount ''-12345678901234567890123456789'' False)
     = Some 12345678901234567890123456790 \<and>
   map_option dec_value (parse_amount ''-12345678901234567890123456789'' True)
     = Some (- 12345678901234567890123456789) \<and>
   map_option dec_value (parse_amount ''12345678901234567890123456789'' False)
     = Some 12345678901234567890123456789"
proof -
  have "dec_abs \<lparr>dec_sign = True, dec_int = 12345678901234567890123456789, dec_exp = 0\<rparr>
        = Some \<lparr>dec_sign = False, dec_int = 1234567890123456789012345679, dec_exp = 1\<rparr>"
    by (simp add: dec_abs_def Let_def prec_def Etop_def Etiny_def ndigits_long ndigits_rounded)
  then have rounded: "parse_amount ''-12345678901234567890123456789'' False
        = Some \<lparr>dec_sign = False, dec_int = 1234567890123456789012345679, dec_exp = 1\<rparr>"
    by (simp only: parse_amount_cleaned filter_long Decimal_long)
       (simp add: dec_negative_def)
  have signed: "parse_amount ''-12345678901234567890123456789'' True
        = Some \<lparr>dec_sign = True, dec_int = 12345678901234567890123456789, dec_exp = 0\<rparr>"
    by (simp only: parse_amount_cleaned filter_long Decimal_long) simp
  have positive: "parse_amount ''12345678901234567890123456789'' False
        = Some \<lparr>dec_sign = False, dec_int = 12345678901234567890123456789, dec_exp = 0\<rparr>"
    by (simp only: parse_amount_cleaned filter_long_positive Decimal_long_positive)
       (simp add: dec_negative_def)
  show ?thesis
    by (simp only: filter_long Decimal_long rounded signed positive) (simp add: dec_value_def)
qed

section \<open>Dates\<close>

lemma try_formats_first:
  "i < length fmts \<Longrightarrow> strptime s (fmts ! i) = Some dt \<Longrightarrow>
   (\<And>j. j < i \<Longrightarrow> strptime s (fmts ! j) = None) \<Longrightarrow> try_formats s fmts = Some dt"
proof (induction fmts arbitrary: i)
  case Nil
  then show ?case by simp
next
  case (Cons f fs)
  show ?case
  proof (cases i)
    case 0
    with Cons.prems show ?thesis by simp
  next
    case (Suc k)
    have "strptime s f = None"
      using Cons.prems(3) [of 0] Suc by simp
    moreover have "try_formats s fs = Some dt"
    proof (rule Cons.IH [of k])
      show "k < length fs" using Cons.prems(1) Suc by simp
      show "strptime s (fs ! k) = Some dt" using Cons.prems(2) Suc by simp
      show "strptime s (fs ! j) = None" if "j < k" for j
        using Cons.prems(3) [of "Suc j"] that Suc by simp
    qed
    ultimately show ?thesis by simp
  qed
qed

lemma try_formats_none:
  "(\<And>j. j < length fmts \<Longrightarrow> strptime s (fmts ! j) = None) \<Longrightarrow> try_formats s fmts = None"
proof (induction fmts)
  case Nil
  show ?case by simp
next
  case (Cons f fs)
  have "strptime s f = None"
    using Cons.prems [of 0] by simp
  moreover have "try_formats s fs = None"
    by (rule Cons.IH) (use Cons.prems [of "Suc j" for j] in simp)
  ultimately show ?case by simp
qed

lemma strptime_us: "strptime ''03/04/2023'' ''%m/%d/%Y'' = Some \<lparr>year = 2023, month = 3, day = 4\<rparr>"
  by code_simp

lemma strptime_eu: "strptime ''03/04/2023'' ''%d/%m/%Y'' = Some \<lparr>year = 2023, month = 4, day = 3\<rparr>"
  by code_simp

lemma strptime_iso: "strptime ''03/04/2023'' ''%Y-%m-%d'' = None"
  by code_simp

lemma strip_date: "strip ''03/04/2023'' = ''03/04/2023''"
  by code_simp

lemma parse_date_ambiguous: "parse_date ''03/04/2023'' = Some \<lparr>year = 2023, month = 3, day = 4\<rparr>"
  by code_simp

text \<open>
  Claim C7. \<open>parse_date\<close> gives none for an empty or blank text, and otherwise the
  result of the first format of the fixed list that parses the stripped text (none when
  no format does). The month-first slash format stands before the day-first one, and both
  parse \<^verbatim>\<open>03/04/2023\<close>: the result is March 4, 2023.
\<close>

theorem parse_date_first_match:
  "(strip s = [] \<longrightarrow> parse_date s = None) \<and>
   (strip s \<noteq> [] \<and> i < length date_formats
      \<and> strptime (strip s) (date_formats ! i) = Some dt
      \<and> (\<forall>j<i. strptime (strip s) (date_formats ! j) = None) \<longrightarrow> parse_date s = Some dt) \<and>
   (strip s \<noteq> [] \<and> (\<forall>j<length date_formats. strptime (strip s) (date_formats ! j) = None)
      \<longrightarrow> parse_date s = None) \<and>
   date_formats =
     [''%Y-%m-%d'', ''%m/%d/%Y'', ''%d/%m/%Y'', ''%Y/%m/%d'', ''%m-%d-%Y'', ''%d-%m-%Y'',
      ''%b %d, %Y'', ''%B %d, %Y'', ''%d %b %Y'', ''%d %B %Y''] \<and>
   strptime ''03/04/2023'' ''%m/%d/%Y'' = Some \<lparr>year = 2023, month = 3, day = 4\<rparr> \<and>
   strptime ''03/04/2023'' ''%d/%m/%Y'' = Some \<lparr>year = 2023, month = 4, day = 3\<rparr> \<and>
   parse_date ''03/04/2023'' = Some \<lparr>year = 2023, month = 3, day = 4\<rparr>"
proof -
  have blank: "parse_date s = None" if "strip s = []"
    using that by (simp add: parse_date_def)
  have nonblank: "parse_date s = try_formats (strip s) date_formats" if "strip s \<noteq> []"
  proof -
    from that have "s \<noteq> []" by auto
    with that show ?thesis by (simp add: parse_date_def)
  qed
  have first: "parse_date s = Some dt"
    if "strip s \<noteq> []" "i < length date_formats" "strptime (strip s) (date_formats ! i) = Some dt"
       "\<forall>j<i. strptime (strip s) (date_formats ! j) = None"
    using that nonblank try_formats_first [of i date_formats "strip s" dt] by simp
  have none: "parse_date s = None"
    if "strip s \<noteq> []" "\<forall>j<length date_formats. strptime (strip s) (date_formats ! j) = None"
    using that nonblank try_formats_none [of date_formats "strip s"] by simp
  show ?thesis
    using blank first none strptime_us strptime_eu parse_date_ambiguous
    by (simp only: date_formats_def [symmetric] simp_thms) (simp add: date_formats_def)
qed

text \<open>Witness for C7: \<^verbatim>\<open>03/04/2023\<close>, which the first format rejects and the second parses.\<close>

theorem parse_date_first_match_witness:
  "strip ''03/04/2023'' = ''03/04/2023'' \<and>
   strptime ''03/04/2023'' (date_formats ! 0) = None \<and>
   strptime ''03/04/2023'' (date_formats ! 1) = Some \<lparr>year = 2023, month = 3, day = 4\<rparr> \<and>
   parse_date ''03/04/2023'' = Some \<lparr>year = 2023, month = 3, day = 4\<rparr>"
proof -
  have f0: "date_formats ! 0 = ''%Y-%m-%d''" and f1: "date_formats ! 1 = ''%m/%d/%Y''"
    and f1': "date_formats ! Suc 0 = ''%m/%d/%Y''" and len: "1 < length date_formats"
    by (simp_all add: date_formats_def)
  have h: "strip ''03/04/2023'' \<noteq> [] \<and> 1 < length date_formats
      \<and> strptime (strip ''03/04/2023'') (date_formats ! 1)
          = Some \<lparr>year = 2023, month = 3, day = 4\<rparr>
      \<and> (\<forall>j<1. strptime (strip ''03/04/2023'') (date_formats ! j) = None)"
    using len by (simp add: strip_date f0 f1' strptime_iso strptime_us)
  from parse_date_first_match [of "''03/04/2023''" 1 "\<lparr>year = 2023, month = 3, day = 4\<rparr>"]
  have "strip ''03/04/2023'' \<noteq> [] \<and> 1 < length date_formats
      \<and> strptime (strip ''03/04/2023'') (date_formats ! 1)
          = Some \<lparr>year = 2023, month = 3, day = 4\<rparr>
      \<and> (\<forall>j<1. strptime (strip ''03/04/2023'') (date_formats ! j) = None)
      \<longrightarrow> parse_date ''03/04/2023'' = Some \<lparr>year = 2023, month = 3, day = 4\<rparr>"
    by (rule conjunct2 [THEN conjunct1])
  from mp [OF this h] show ?thesis
    by (simp only: f0 f1 strptime_iso strptime_us strip_date simp_thms)
qed

section \<open>The table loop\<close>

lemma parse_table_step_short:
  "length t < 2 \<Longrightarrow> parse_table_step fund_id (i, t) st = st"
  by (cases st) simp

lemma parse_table_step_same_counts:
  "same_counts a b \<Longrightarrow>
   same_counts (parse_table_step fund_id (i, t) a) (parse_table_step fund_id (j, t) b)"
  by (cases a; cases b)
     (auto simp: same_counts_def split: option.splits table_type.splits sum.splits prod.splits)

lemma fold_parse_table_step_same_counts:
  "same_counts a b \<Longrightarrow>
   same_counts (fold (parse_table_step fund_id) (enumerate i ts) a)
               (fold (parse_table_step fund_id) (enumerate j ts) b)"
proof (induction ts arbitrary: i j a b)
  case Nil
  then show ?case by simp
next
  case (Cons t ts)
  show ?case
    using Cons.IH [OF parse_table_step_same_counts [OF Cons.prems, where i = i and j = j
          and t = t and fund_id = fund_id], where i = "Suc i" and j = "Suc j"]
    by simp
qed

lemma parse_tables_split:
  "parse_tables (xs @ ys) db fund_id =
     fold (parse_table_step fund_id) (enumerate (length xs) ys)
       (fold (parse_table_step fund_id) (enumerate 0 xs) (empty_stats, db))"
  by (simp add: parse_tables_def enumerate_append_eq)

lemma capital_call_row_commit_error:
  "commit_error (snd (capital_call_row f dc ac tc row st)) = commit_error (snd st)"
  by (simp add: capital_call_row_def db_add_def Let_def split: option.splits)

lemma distribution_row_commit_error:
  "commit_error (snd (distribution_row f dc ac tc rc row st)) = commit_error (snd st)"
  by (simp add: distribution_row_def db_add_def Let_def split: option.splits)

lemma adjustment_row_commit_error:
  "commit_error (snd (adjustment_row f dc ac tc row st)) = commit_error (snd st)"
  by (simp add: adjustment_row_def db_add_def Let_def split: option.splits)

lemma fold_keeps_commit_error:
  "(\<And>row st. commit_error (snd (step row st)) = commit_error (snd st)) \<Longrightarrow>
   commit_error (snd (fold step rows st)) = commit_error (snd st)"
  by (induction rows arbitrary: st) simp_all

lemma fold_capital_call_row_commit_error:
  "commit_error (snd (fold (capital_call_row f dc ac tc) rows st)) = commit_error (snd st)"
  by (rule fold_keeps_commit_error) (rule capital_call_row_commit_error)

lemma fold_distribution_row_commit_error:
  "commit_error (snd (fold (distribution_row f dc ac tc rc) rows st)) = commit_error (snd st)"
  by (rule fold_keeps_commit_error) (rule distribution_row_commit_error)

lemma fold_adjustment_row_commit_error:
  "commit_error (snd (fold (adjustment_row f dc ac tc) rows st)) = commit_error (snd st)"
  by (rule fold_keeps_commit_error) (rule adjustment_row_commit_error)

lemma find_header_row_less: "table \<noteq> [] \<Longrightarrow> find_header_row table < length table"
proof -
  assume ne: "table \<noteq> []"
  show ?thesis
  proof (cases "find (\<lambda>(idx, row). list_ex (contains (join '' '' (map lower row))) header_keywords)
             (enumerate 0 (take 3 table))")
    case None
    with ne show ?thesis by (simp add: find_header_row_def)
  next
    case (Some a)
    obtain idx row where a: "a = (idx, row)" by (cases a)
    from Some obtain k where k: "k < length (enumerate 0 (take 3 table))"
      and ak: "a = enumerate 0 (take 3 table) ! k"
      unfolding find_Some_iff by blast
    from k ak a have "idx < length (take 3 table)"
      by (simp add: nth_enumerate_eq)
    with Some a show ?thesis by (simp add: find_header_row_def)
  qed
qed

lemma parse_capital_calls_ok:
  assumes "commit_error db = None" "table \<noteq> []"
  shows "committed_ok (parse_capital_calls table db f)"
  using assms find_header_row_less [OF assms(2)]
  by (simp add: committed_ok_def parse_capital_calls_def Let_def db_commit_def
      fold_capital_call_row_commit_error split: option.splits)

lemma parse_distributions_ok:
  assumes "commit_error db = None" "table \<noteq> []"
  shows "committed_ok (parse_distributions table db f)"
  using assms find_header_row_less [OF assms(2)]
  by (simp add: committed_ok_def parse_distributions_def Let_def db_commit_def
      fold_distribution_row_commit_error split: option.splits)

lemma parse_adjustments_ok:
  assumes "commit_error db = None" "table \<noteq> []"
  shows "committed_ok (parse_adjustments table db f)"
  using assms find_header_row_less [OF assms(2)]
  by (simp add: committed_ok_def parse_adjustments_def Let_def db_commit_def
      fold_adjustment_row_commit_error split: option.splits)


lemma committed_okE:
  "committed_ok r \<Longrightarrow> \<exists>n db'. r = (Inr n, db') \<and> commit_error db' = None"
  by (cases r) (auto simp: committed_ok_def)

lemma parse_table_step_no_failure:
  assumes "no_failure a"
  shows "no_failure (parse_table_step f (i, t) a)"
proof (cases a)
  case (Pair st db)
  with assms have db: "commit_error db = None" and e: "errors st = []"
    by (simp_all add: no_failure_def)
  show ?thesis
  proof (cases "t = [] \<or> length t < 2")
    case True
    with assms Pair show ?thesis by auto
  next
    case False
    then have ne: "t \<noteq> []" by simp
    from committed_okE [OF parse_capital_calls_ok [OF db ne, of f]]
    obtain n1 d1 where c: "parse_capital_calls t db f = (Inr n1, d1)" "commit_error d1 = None"
      by blast
    from committed_okE [OF parse_distributions_ok [OF db ne, of f]]
    obtain n2 d2 where d: "parse_distributions t db f = (Inr n2, d2)" "commit_error d2 = None"
      by blast
    from committed_okE [OF parse_adjustments_ok [OF db ne, of f]]
    obtain n3 d3 where a: "parse_adjustments t db f = (Inr n3, d3)" "commit_error d3 = None"
      by blast
    show ?thesis
      unfolding Pair using False db e c d a
      by (simp add: no_failure_def split: option.splits table_type.splits)
  qed
qed

lemma fold_parse_table_step_no_failure:
  "no_failure a \<Longrightarrow> no_failure (fold (parse_table_step f) its a)"
proof (induction its arbitrary: a)
  case Nil
  then show ?case by simp
next
  case (Cons it its)
  obtain i t where "it = (i, t)" by (cases it)
  with Cons show ?case by (simp add: parse_table_step_no_failure)
qed

lemma parse_tables_no_failure:
  "commit_error db = None \<Longrightarrow> errors (fst (parse_tables ts db f)) = []"
  using fold_parse_table_step_no_failure [of "(empty_stats, db)" f "enumerate 0 ts"]
  by (simp add: parse_tables_def no_failure_def empty_stats_def)

lemma same_counts_no_errors:
  "same_counts a b \<Longrightarrow> errors (fst a) = [] \<Longrightarrow> errors (fst b) = [] \<Longrightarrow> a = b"
  by (cases a; cases b) (simp add: same_counts_def)

text \<open>
  Claim C8, amended. A table with fewer than 2 rows adds nothing: the outcome of
  \<open>parse_tables\<close> is that of the loop over the other tables with the positions they have in
  the input, and against the input without that table the three counts, the number of
  error entries and the session are the same. (An error entry carries the position of its
  table, so entries of later tables differ in that number.) When the store does not fail
  there is no error entry, and the two outcomes are equal.
\<close>

theorem parse_tables_skips_short_table:
  "length t < 2 \<longrightarrow>
     parse_tables (xs @ t # ys) db fund_id =
       fold (parse_table_step fund_id) (enumerate 0 xs @ enumerate (Suc (length xs)) ys)
         (empty_stats, db) \<and>
     capital_calls (fst (parse_tables (xs @ t # ys) db fund_id))
       = capital_calls (fst (parse_tables (xs @ ys) db fund_id)) \<and>
     distributions (fst (parse_tables (xs @ t # ys) db fund_id))
       = distributions (fst (parse_tables (xs @ ys) db fund_id)) \<and>
     adjustments (fst (parse_tables (xs @ t # ys) db fund_id))
       = adjustments (fst (parse_tables (xs @ ys) db fund_id)) \<and>
     length (errors (fst (parse_tables (xs @ t # ys) db fund_id)))
       = length (errors (fst (parse_tables (xs @ ys) db fund_id))) \<and>
     snd (parse_tables (xs @ t # ys) db fund_id) = snd (parse_tables (xs @ ys) db fund_id) \<and>
     (commit_error db = None \<longrightarrow>
        parse_tables (xs @ t # ys) db fund_id = parse_tables (xs @ ys) db fund_id)"
proof
  assume short: "length t < 2"
  let ?pre = "fold (parse_table_step fund_id) (enumerate 0 xs) (empty_stats, db)"
  have with_t: "parse_tables (xs @ t # ys) db fund_id =
      fold (parse_table_step fund_id) (enumerate (Suc (length xs)) ys) ?pre"
    by (simp add: parse_tables_split [of xs "t # ys"] parse_table_step_short [OF short])
  have without_t: "parse_tables (xs @ ys) db fund_id =
      fold (parse_table_step fund_id) (enumerate (length xs) ys) ?pre"
    by (rule parse_tables_split)
  have "same_counts ?pre ?pre"
    by (simp add: same_counts_def)
  from fold_parse_table_step_same_counts [OF this, of fund_id "Suc (length xs)" ys "length xs"]
  have sc: "same_counts (parse_tables (xs @ t # ys) db fund_id) (parse_tables (xs @ ys) db fund_id)"
    by (simp only: with_t without_t)
  have eq: "parse_tables (xs @ t # ys) db fund_id = parse_tables (xs @ ys) db fund_id"
    if "commit_error db = None"
    using sc parse_tables_no_failure [OF that, of "xs @ t # ys" fund_id]
      parse_tables_no_failure [OF that, of "xs @ ys" fund_id]
    by (rule same_counts_no_errors)
  from sc eq show "parse_tables (xs @ t # ys) db fund_id =
       fold (parse_table_step fund_id) (enumerate 0 xs @ enumerate (Suc (length xs)) ys)
         (empty_stats, db) \<and>
     capital_calls (fst (parse_tables (xs @ t # ys) db fund_id))
       = capital_calls (fst (parse_tables (xs @ ys) db fund_id)) \<and>
     distributions (fst (parse_tables (xs @ t # ys) db fund_id))
       = distributions (fst (parse_tables (xs @ ys) db fund_id)) \<and>
     adjustments (fst (parse_tables (xs @ t # ys) db fund_id))
       = adjustments (fst (parse_tables (xs @ ys) db fund_id)) \<and>
     length (errors (fst (parse_tables (xs @ t # ys) db fund_id)))
       = length (errors (fst (parse_tables (xs @ ys) db fund_id))) \<and>
     snd (parse_tables (xs @ t # ys) db fund_id) = snd (parse_tables (xs @ ys) db fund_id) \<and>
     (commit_error db = None \<longrightarrow>
        parse_tables (xs @ t # ys) db fund_id = parse_tables (xs @ ys) db fund_id)"
    using with_t by (simp add: same_counts_def)
qed

text \<open>
  Counterexample to C8 as stated: with a store whose commit fails, the error list of an
  input that starts with an empty table is not the error list of the input without it.
\<close>

theorem parse_tables_error_tag_shifts:
  "errors (fst (parse_tables [[], [[''call date'', ''amount''], [''x'', ''y'']]]
      \<lparr>pending = [], committed = [], commit_error = Some ''db down'', closed = False\<rparr> 1))
     = [''Error parsing table 1: db down''] \<and>
   errors (fst (parse_tables [[[''call date'', ''amount''], [''x'', ''y'']]]
      \<lparr>pending = [], committed = [], commit_error = Some ''db down'', closed = False\<rparr> 1))
     = [''Error parsing table 0: db down'']"
  by code_simp

text \<open>Witness for C8: a single-row table before a table whose commit fails.\<close>

theorem parse_tables_skips_short_table_witness:
  "length ([[''only row'']] :: table) < 2 \<and>
   length (errors (fst (parse_tables ([] @ [[''only row'']] # [[[''call date'', ''amount''], [''x'', ''y'']]])
      \<lparr>pending = [], committed = [], commit_error = Some ''db down'', closed = False\<rparr> 1)))
   = length (errors (fst (parse_tables ([] @ [[[''call date'', ''amount''], [''x'', ''y'']]])
      \<lparr>pending = [], committed = [], commit_error = Some ''db down'', closed = False\<rparr> 1))) \<and>
   commit_error \<lparr>pending = [], committed = [], commit_error = None, closed = False\<rparr> = None \<and>
   parse_tables ([] @ [[''only row'']] # [[[''call date'', ''amount''], [''x'', ''y'']]])
      \<lparr>pending = [], committed = [], commit_error = None, closed = False\<rparr> 1
   = parse_tables ([] @ [[[''call date'', ''amount''], [''x'', ''y'']]])
      \<lparr>pending = [], committed = [], commit_error = None, closed = False\<rparr> 1"
proof -
  have s: "length ([[''only row'']] :: table) < 2" by simp
  have h: "commit_error \<lparr>pending = [], committed = [], commit_error = None, closed = False\<rparr> = None"
    by simp
  from mp [OF parse_tables_skips_short_table [of "[[''only row'']]" "[]"
        "[[[''call date'', ''amount''], [''x'', ''y'']]]"
        "\<lparr>pending = [], committed = [], commit_error = Some ''db down'', closed = False\<rparr>" 1] s]
  have failing: "length (errors (fst (parse_tables ([] @ [[''only row'']] # [[[''call date'', ''amount''], [''x'', ''y'']]])
      \<lparr>pending = [], committed = [], commit_error = Some ''db down'', closed = False\<rparr> 1)))
   = length (errors (fst (parse_tables ([] @ [[[''call date'', ''amount''], [''x'', ''y'']]])
      \<lparr>pending = [], committed = [], commit_error = Some ''db down'', closed = False\<rparr> 1)))"
    by blast
  from mp [OF parse_tables_skips_short_table [of "[[''only row'']]" "[]"
        "[[[''call date'', ''amount''], [''x'', ''y'']]]"
        "\<lparr>pending = [], committed = [], commit_error = None, closed = False\<rparr>" 1] s] h
  have healthy: "parse_tables ([] @ [[''only row'']] # [[[''call date'', ''amount''], [''x'', ''y'']]])
      \<lparr>pending = [], committed = [], commit_error = None, closed = False\<rparr> 1
   = parse_tables ([] @ [[[''call date'', ''amount''], [''x'', ''y'']]])
      \<lparr>pending = [], committed = [], commit_error = None, closed = False\<rparr> 1"
    by blast
  from s failing h healthy show ?thesis
    by (intro conjI)
qed

section \<open>The document pipeline and exceptions\<close>







section \<open>The chunker and word boundaries\<close>

lemma split_ws_from_at_space:
  "isspace c \<Longrightarrow> split_ws_from cur (a @ c # b) = split_ws_from cur a @ split_ws b"
  by (induction a arbitrary: cur) (simp_all add: split_ws_def)

lemma split_ws_from_word:
  "(\<And>x. x \<in> set w \<Longrightarrow> \<not> isspace x) \<Longrightarrow>
   split_ws_from cur w = (if cur @ w = [] then [] else [cur @ w])"
  by (induction w arbitrary: cur) simp_all

lemma split_ws_from_token:
  "w \<in> set (split_ws_from cur s) \<Longrightarrow> (\<And>x. x \<in> set cur \<Longrightarrow> \<not> isspace x) \<Longrightarrow>
   w \<noteq> [] \<and> (\<forall>x\<in>set w. \<not> isspace x)"
proof (induction s arbitrary: cur)
  case Nil
  then show ?case by (auto split: if_splits)
next
  case (Cons c s)
  show ?case
  proof (cases "isspace c")
    case True
    with Cons.prems(1) have "w = cur \<and> cur \<noteq> [] \<or> w \<in> set (split_ws_from [] s)"
      by (auto split: if_splits)
    then show ?thesis
      using Cons.IH [of "[]"] Cons.prems(2) by auto
  next
    case False
    with Cons.prems(1) have "w \<in> set (split_ws_from (cur @ [c]) s)" by simp
    then show ?thesis
      using Cons.IH [of "cur @ [c]"] Cons.prems(2) False by auto
  qed
qed

lemma split_ws_token:
  "w \<in> set (split_ws s) \<Longrightarrow> w \<noteq> [] \<and> (\<forall>x\<in>set w. \<not> isspace x)"
  using split_ws_from_token [of w "[]" s] by (simp add: split_ws_def)

lemma split_ws_of_token: "w \<in> set (split_ws s) \<Longrightarrow> split_ws w = [w]"
  using split_ws_token [of w s] split_ws_from_word [of w "[]"] by (simp add: split_ws_def)

lemma split_ws_idem: "concat (map split_ws (split_ws s)) = split_ws s"
proof -
  have a: "map split_ws (split_ws s) = map (\<lambda>w. [w]) (split_ws s)"
    by (rule map_cong) (simp_all add: split_ws_of_token)
  have b: "concat (map (\<lambda>w. [w]) xs) = xs" for xs :: "string list"
    by (induction xs) simp_all
  show ?thesis
    unfolding a by (rule b)
qed

lemma split_ws_Nil [simp]: "split_ws [] = []"
  by (simp add: split_ws_def)

lemma split_ws_space_Cons: "isspace c \<Longrightarrow> split_ws (c # s) = split_ws s"
  by (simp add: split_ws_def)

lemma split_ws_dropWhile: "split_ws (dropWhile isspace s) = split_ws s"
  by (induction s) (simp_all add: split_ws_space_Cons)

lemma split_ws_from_spaces:
  "(\<And>x. x \<in> set b \<Longrightarrow> isspace x) \<Longrightarrow> split_ws_from cur b = (if cur = [] then [] else [cur])"
  by (induction b arbitrary: cur) simp_all

lemma split_ws_from_trailing_spaces:
  "(\<And>x. x \<in> set b \<Longrightarrow> isspace x) \<Longrightarrow> split_ws_from cur (a @ b) = split_ws_from cur a"
  by (induction a arbitrary: cur) (simp_all add: split_ws_from_spaces)

lemma split_ws_rstrip: "split_ws (rev (dropWhile isspace (rev s))) = split_ws s"
proof -
  have "s = rev (dropWhile isspace (rev s)) @ rev (takeWhile isspace (rev s))"
    by (metis rev_append rev_rev_ident takeWhile_dropWhile_id)
  moreover have "isspace x" if "x \<in> set (rev (takeWhile isspace (rev s)))" for x
    using that by (auto dest: set_takeWhileD)
  ultimately show ?thesis
    unfolding split_ws_def by (metis split_ws_from_trailing_spaces)
qed

lemma split_ws_strip: "split_ws (strip s) = split_ws s"
  by (simp add: strip_def split_ws_rstrip split_ws_dropWhile)

lemma split_ws_blank: "strip s = [] \<Longrightarrow> split_ws s = []"
  using split_ws_strip [of s] by simp

lemma split_ws_joined: "isspace c \<Longrightarrow> split_ws (a @ c # b) = split_ws a @ split_ws b"
  unfolding split_ws_def by (simp add: split_ws_from_at_space split_ws_def)

lemma isspace_blank [simp]: "isspace CHR '' ''" and isspace_newline [simp]: "isspace CHR 0x0A"
  by (simp_all add: isspace_def)

lemma split_sentences_from_tokens:
  "concat (map split_ws (split_sentences_from cur s)) = split_ws (cur @ s)"
proof (induction cur s rule: split_sentences_from.induct)
  case (1 cur)
  show ?case by simp
next
  case (2 cur c cs)
  show ?case
  proof (cases "isspace c \<and> cur \<noteq> [] \<and> is_sentence_end (last cur)")
    case True
    with 2 show ?thesis
      by (simp add: split_ws_joined split_ws_dropWhile)
  next
    case False
    with 2 show ?thesis by auto
  qed
qed

lemma split_sentences_tokens: "concat (map split_ws (split_sentences s)) = split_ws s"
  by (simp add: split_sentences_def split_sentences_from_tokens)

lemma split_nlnl_from_tokens:
  "concat (map split_ws (split_nlnl_from cur s)) = split_ws (cur @ s)"
proof (induction cur s rule: split_nlnl_from.induct)
  case (1 cur c d cs)
  show ?case
  proof (cases "c = CHR 0x0A \<and> d = CHR 0x0A")
    case True
    with 1 show ?thesis
      by (simp add: split_ws_joined split_ws_space_Cons)
  next
    case False
    with 1 show ?thesis by auto
  qed
qed simp_all

lemma split_nlnl_tokens: "concat (map split_ws (split_nlnl s)) = split_ws s"
  by (simp add: split_nlnl_def split_nlnl_from_tokens)



lemma tokens_of_simp [simp]:
  "tokens_of (chunks, cur, idx) = concat (map (\<lambda>c. split_ws (text c)) chunks) @ split_ws cur"
  by (simp add: tokens_of_def)

lemma split_ws_blank_join [simp]: "split_ws (a @ CHR '' '' # b) = split_ws a @ split_ws b"
  by (rule split_ws_joined) simp

lemma word_step_tokens: "tokens_of (word_step cfg pg w st) = tokens_of st @ split_ws w"
  by (cases st) (simp add: split_ws_strip)

lemma fold_word_step_tokens:
  "tokens_of (fold (word_step cfg pg) ws st) = tokens_of st @ concat (map split_ws ws)"
  by (induction ws arbitrary: st) (simp_all add: word_step_tokens)

lemma sentence_step_tokens: "tokens_of (sentence_step cfg pg x st) = tokens_of st @ split_ws x"
proof (cases st)
  case (fields chunks cur idx)
  show ?thesis
    unfolding fields
    by (simp add: Let_def split_ws_strip fold_word_step_tokens split_ws_idem)
qed

lemma fold_sentence_step_tokens:
  "tokens_of (fold (sentence_step cfg pg) xs st) = tokens_of st @ concat (map split_ws xs)"
  by (induction xs arbitrary: st) (simp_all add: sentence_step_tokens)

lemma flush_rest_tokens:
  "concat (map (\<lambda>c. split_ws (text c)) (fst (flush_rest pg st))) = tokens_of st"
  by (cases st) (simp add: split_ws_strip split_ws_blank)

lemma split_large_paragraph_tokens:
  "concat (map (\<lambda>c. split_ws (text c)) (split_large_paragraph cfg p pg i)) = split_ws p"
  by (simp add: split_large_paragraph_def flush_rest_tokens fold_sentence_step_tokens
      split_sentences_tokens)


lemma whole_token_Nil [simp]: "whole_token sz []"
  by (simp add: whole_token_def)










lemma carried_ok_Nil [simp]: "carried_ok ov prev []"
  by (simp add: carried_ok_def)

lemma carried_ok_iff:
  "carried_ok ov prev carried =
     (carried = [] \<or>
      (\<exists>t n. prev = Some t \<and> carried = split_ws (drop n t) \<and> (ov = 0 \<or> length t - n \<le> ov)))"
proof (cases prev)
  case None
  then show ?thesis by (simp add: carried_ok_def)
next
  case (Some t)
  show ?thesis
  proof
    assume "carried_ok ov prev carried"
    then show "carried = [] \<or>
      (\<exists>t n. prev = Some t \<and> carried = split_ws (drop n t) \<and> (ov = 0 \<or> length t - n \<le> ov))"
      unfolding carried_ok_def Some option.case by blast
  next
    assume r: "carried = [] \<or>
      (\<exists>t n. prev = Some t \<and> carried = split_ws (drop n t) \<and> (ov = 0 \<or> length t - n \<le> ov))"
    show "carried_ok ov prev carried"
    proof (cases "carried = []")
      case True
      then show ?thesis by simp
    next
      case False
      with r Some obtain n where n: "carried = split_ws (drop n t)" "ov = 0 \<or> length t - n \<le> ov"
        by auto
      from n(1) False have "n < Suc (length t)"
        by (cases "n < Suc (length t)") (simp_all add: split_ws_def)
      then have "n \<in> set [0..<Suc (length t)]" by (simp del: upt_Suc)
      with n have "\<exists>n\<in>set [0..<Suc (length t)].
          carried = split_ws (drop n t) \<and> (ov = 0 \<or> length t - n \<le> ov)"
        by blast
      then show ?thesis
        unfolding carried_ok_def Some option.case by blast
    qed
  qed
qed

lemma decomposes_snoc:
  "decomposes ov prev (ts @ [t]) (ps @ [(c, f)]) =
     (decomposes ov prev ts ps \<and> split_ws t = c @ f \<and> carried_ok ov (last_text prev ts) c)"
proof (induction ts arbitrary: prev ps)
  case Nil
  show ?case
  proof (cases ps)
    case Nil
    then show ?thesis by (auto simp: last_text_def)
  next
    case (Cons p ps')
    obtain a b where "p = (a, b)" by (cases p)
    with Cons show ?thesis by (cases ps') (auto simp: last_text_def)
  qed
next
  case (Cons u us)
  show ?case
  proof (cases ps)
    case Nil
    then show ?thesis by (cases us) auto
  next
    case (Cons p ps')
    obtain a b where "p = (a, b)" by (cases p)
    with Cons Cons.IH [of "Some u" ps'] show ?thesis
      by (auto simp: last_text_def)
  qed
qed

lemma decomposes_fresh_chunks:
  "decomposes ov prev us (map (\<lambda>u. ([], split_ws u)) us)"
  by (induction us arbitrary: prev) simp_all

lemma decomposes_append_fresh:
  "decomposes ov prev ts ps \<Longrightarrow>
   decomposes ov prev (ts @ us) (ps @ map (\<lambda>u. ([], split_ws u)) us)"
proof (induction ts arbitrary: prev ps)
  case Nil
  then show ?case by (cases ps) (simp_all add: decomposes_fresh_chunks)
next
  case (Cons t ts)
  then show ?case
    by (cases ps) auto
qed

lemma decomposes_covers:
  "decomposes ov prev ts ps \<Longrightarrow> set (concat (map snd ps)) \<subseteq> set (concat (map split_ws ts))"
proof (induction ts arbitrary: prev ps)
  case Nil
  then show ?case by (cases ps) simp_all
next
  case (Cons t ts)
  show ?case
  proof (cases ps)
    case Nil
    then show ?thesis by simp
  next
    case (Cons p ps')
    obtain c f where p: "p = (c, f)" by (cases p)
    from Cons.prems Cons p have t: "split_ws t = c @ f" and r: "decomposes ov (Some t) ts ps'"
      by simp_all
    from t have "set f \<subseteq> set (split_ws t)" by simp
    with Cons.IH [OF r] Cons p show ?thesis by auto
  qed
qed

lemma strip_parts:
  "\<exists>lead trail. s = lead @ strip s @ trail \<and> (\<forall>x\<in>set lead. isspace x) \<and> (\<forall>x\<in>set trail. isspace x)"
proof -
  let ?a = "dropWhile isspace s"
  have a: "?a = rev (dropWhile isspace (rev ?a)) @ rev (takeWhile isspace (rev ?a))"
    by (metis rev_append rev_rev_ident takeWhile_dropWhile_id)
  have "s = takeWhile isspace s @ ?a" by simp
  with a have "s = takeWhile isspace s @ strip s @ rev (takeWhile isspace (rev ?a))"
    by (simp add: strip_def)
  moreover have "\<forall>x\<in>set (takeWhile isspace s). isspace x"
    by (auto dest: set_takeWhileD)
  moreover have "\<forall>x\<in>set (rev (takeWhile isspace (rev ?a))). isspace x"
    by (auto dest: set_takeWhileD)
  ultimately show ?thesis by blast
qed

lemma split_ws_leading_spaces:
  "(\<And>x. x \<in> set a \<Longrightarrow> isspace x) \<Longrightarrow> split_ws (a @ b) = split_ws b"
  by (induction a) (simp_all add: split_ws_space_Cons)

lemma split_ws_trailing_spaces:
  "(\<And>x. x \<in> set b \<Longrightarrow> isspace x) \<Longrightarrow> split_ws (a @ b) = split_ws a"
  unfolding split_ws_def by (rule split_ws_from_trailing_spaces)

lemma split_ws_all_spaces: "(\<And>x. x \<in> set b \<Longrightarrow> isspace x) \<Longrightarrow> split_ws b = []"
  using split_ws_trailing_spaces [of b "[]"] by simp

lemma split_ws_drop_strip:
  "\<exists>n. split_ws (drop m s) = split_ws (drop n (strip s)) \<and> length (strip s) - n \<le> length s - m"
proof -
  from strip_parts [of s] obtain lead trail where s: "s = lead @ strip s @ trail"
    and lead: "\<forall>x\<in>set lead. isspace x" and trail: "\<forall>x\<in>set trail. isspace x"
    by blast
  have len: "length s = length lead + length (strip s) + length trail"
    using s by (metis length_append add.assoc)
  show ?thesis
  proof (cases "m \<le> length lead")
    case True
    have "drop m s = drop m lead @ strip s @ trail"
      using True by (subst s) simp
    moreover have "\<forall>x\<in>set (drop m lead). isspace x"
      using lead by (meson in_set_dropD)
    ultimately have "split_ws (drop m s) = split_ws (strip s)"
      using trail by (simp add: split_ws_leading_spaces split_ws_trailing_spaces)
    moreover have "length (strip s) - 0 \<le> length s - m"
      using True len by simp
    ultimately show ?thesis
      by (intro exI [of _ 0]) simp
  next
    case False
    let ?n = "m - length lead"
    have d: "drop m s = drop ?n (strip s) @ drop (?n - length (strip s)) trail"
      using False by (subst s) simp
    have "\<forall>x\<in>set (drop (?n - length (strip s)) trail). isspace x"
      using trail by (meson in_set_dropD)
    then have "split_ws (drop m s) = split_ws (drop ?n (strip s))"
      unfolding d by (simp add: split_ws_trailing_spaces)
    moreover have "length (strip s) - ?n \<le> length s - m"
      using False len by simp
    ultimately show ?thesis by blast
  qed
qed

lemma get_overlap_text_window:
  "\<exists>m. get_overlap_text cfg t = drop m t \<and>
       (CHUNK_OVERLAP cfg = 0 \<or> length t - m \<le> CHUNK_OVERLAP cfg)"
proof (cases "length t \<le> CHUNK_OVERLAP cfg")
  case True
  then show ?thesis
    by (intro exI [of _ 0]) (simp add: get_overlap_text_def)
next
  case False
  let ?ov = "CHUNK_OVERLAP cfg"
  let ?b = "if ?ov = 0 then 0 else length t - ?ov"
  have w: "last_chars ?ov t = drop ?b t"
    by (simp add: last_chars_def)
  have bound: "?ov = 0 \<or> length t - (?b + k) \<le> ?ov" for k
    using False by auto
  define se where "se = max (rfind (last_chars ?ov t) ''. '')
      (max (rfind (last_chars ?ov t) ''! '') (rfind (last_chars ?ov t) ''? ''))"
  have g: "get_overlap_text cfg t =
      (if 0 < se then drop (nat (se + 2)) (drop ?b t) else drop ?b t)"
    using False unfolding se_def w [symmetric] by (simp add: get_overlap_text_def Let_def)
  show ?thesis
  proof (cases "0 < se")
    case True
    with g have "get_overlap_text cfg t = drop (?b + nat (se + 2)) t"
      by (simp add: add.commute)
    with bound [of "nat (se + 2)"] show ?thesis by blast
  next
    case False
    with g have "get_overlap_text cfg t = drop (?b + 0) t" by simp
    with bound [of 0] show ?thesis by blast
  qed
qed

lemma page_invI:
  "decomposes ov None (map text chunks) ps \<Longrightarrow> split_ws cur = c @ f \<Longrightarrow>
   carried_ok ov (last_text None (map text chunks)) c \<Longrightarrow> concat (map snd ps) @ f = seen \<Longrightarrow>
   page_inv ov seen (chunks, cur, idx)"
  unfolding page_inv_def by auto

lemma split_ws_paragraph_join:
  "split_ws (a @ CHR 0x0A # CHR 0x0A # b) = split_ws a @ split_ws b"
  by (simp add: split_ws_joined split_ws_space_Cons)

lemma concat_fresh_parts:
  "concat (map snd (map (\<lambda>u. ([], split_ws u)) us)) = concat (map split_ws us)"
  by (induction us) simp_all

lemma paragraph_step_page_inv:
  assumes "page_inv (CHUNK_OVERLAP cfg) seen st"
  shows "page_inv (CHUNK_OVERLAP cfg) (seen @ split_ws raw) (paragraph_step cfg pg raw st)"
proof (cases st)
  case (fields chunks cur idx)
  let ?ov = "CHUNK_OVERLAP cfg"
  let ?p = "strip raw"
  from assms fields obtain ps c f where d: "decomposes ?ov None (map text chunks) ps"
    and cur: "split_ws cur = c @ f"
    and ok: "carried_ok ?ov (last_text None (map text chunks)) c"
    and seen: "concat (map snd ps) @ f = seen"
    unfolding page_inv_def by auto
  have raw: "split_ws raw = split_ws ?p"
    by (simp add: split_ws_strip)
  show ?thesis
  proof (cases "?p = []")
    case True
    then have "split_ws raw = []" by (rule split_ws_blank)
    with True assms fields show ?thesis by (simp add: Let_def)
  next
    case nonblank: False
    show ?thesis
    proof (cases "length cur + length ?p > CHUNK_SIZE cfg")
      case False
      have "split_ws (cur @ (if cur \<noteq> [] then [CHR 0x0A, CHR 0x0A] else []) @ ?p)
            = c @ (f @ split_ws ?p)"
        using cur by (auto simp: split_ws_paragraph_join)
      then have "page_inv ?ov (seen @ split_ws raw)
          (chunks, cur @ (if cur \<noteq> [] then [CHR 0x0A, CHR 0x0A] else []) @ ?p, idx)"
        using d ok seen raw by (intro page_invI [where ps = ps and c = c and f = "f @ split_ws ?p"]) simp_all
      with False nonblank fields show ?thesis by (simp add: Let_def)
    next
      case over: True
      show ?thesis
      proof (cases "cur = []")
        case True
        with cur have cf: "c = []" "f = []" by simp_all
        let ?big = "split_large_paragraph cfg ?p pg idx"
        let ?fp = "\<lambda>u::string. ([]::string list, split_ws u)"
        have "page_inv ?ov (seen @ split_ws raw) (chunks @ ?big, [], idx + length ?big)"
        proof (rule page_invI [where ps = "ps @ map ?fp (map text ?big)"
              and c = "[]" and f = "[]"])
          show "decomposes ?ov None (map text (chunks @ ?big))
              (ps @ map ?fp (map text ?big))"
            using decomposes_append_fresh [OF d, of "map text ?big"] by simp
          show "split_ws [] = [] @ []" by simp
          show "carried_ok ?ov (last_text None (map text (chunks @ ?big))) []" by simp
          have big: "concat (map split_ws (map text ?big)) = split_ws ?p"
            using split_large_paragraph_tokens [of cfg ?p pg idx] by (simp add: comp_def)
          have fresh: "concat (map snd (map ?fp (map text ?big))) = split_ws ?p"
            by (simp only: concat_fresh_parts big)
          have "concat (map snd (ps @ map ?fp (map text ?big))) @ []
              = concat (map snd ps) @ concat (map snd (map ?fp (map text ?big)))"
            by simp
          also have "\<dots> = seen @ split_ws raw"
            using seen cf raw by (simp only: fresh) simp
          finally show "concat (map snd (ps @ map ?fp (map text ?big))) @ [] =
              seen @ split_ws raw" .
        qed
        with True over nonblank fields show ?thesis by (simp add: Let_def)
      next
        case False
        let ?o = "get_overlap_text cfg cur"
        from get_overlap_text_window [of cfg cur] obtain m where m: "?o = drop m cur"
          and mb: "?ov = 0 \<or> length cur - m \<le> ?ov" by blast
        from split_ws_drop_strip [of m cur] obtain n
          where n: "split_ws (drop m cur) = split_ws (drop n (strip cur))"
            and nb: "length (strip cur) - n \<le> length cur - m" by blast
        have "page_inv ?ov (seen @ split_ws raw)
            (chunks @ [mk_chunk (strip cur) pg idx], ?o @ '' '' @ ?p, idx + 1)"
        proof (rule page_invI [where ps = "ps @ [(c, f)]" and c = "split_ws ?o" and f = "split_ws ?p"])
          show "decomposes ?ov None (map text (chunks @ [mk_chunk (strip cur) pg idx])) (ps @ [(c, f)])"
            using d cur ok by (simp add: decomposes_snoc split_ws_strip)
          show "split_ws (?o @ '' '' @ ?p) = split_ws ?o @ split_ws ?p" by simp
          have "carried_ok ?ov (Some (strip cur)) (split_ws ?o)"
            unfolding carried_ok_iff using m n mb nb by (intro disjI2 exI [of _ "strip cur"] exI [of _ n]) auto
          then show "carried_ok ?ov (last_text None (map text (chunks @ [mk_chunk (strip cur) pg idx])))
              (split_ws ?o)"
            by (simp add: last_text_def)
          show "concat (map snd (ps @ [(c, f)])) @ split_ws ?p = seen @ split_ws raw"
            using seen raw by simp
        qed
        with False over nonblank fields show ?thesis by (simp add: Let_def)
      qed
    qed
  qed
qed

lemma fold_paragraph_step_page_inv:
  "page_inv (CHUNK_OVERLAP cfg) seen st \<Longrightarrow>
   page_inv (CHUNK_OVERLAP cfg) (seen @ concat (map split_ws xs)) (fold (paragraph_step cfg pg) xs st)"
proof (induction xs arbitrary: seen st)
  case Nil
  then show ?case by simp
next
  case (Cons x xs)
  from Cons.IH [OF paragraph_step_page_inv [OF Cons.prems, of x pg]]
  show ?case by simp
qed

lemma flush_rest_page_inv:
  assumes "page_inv ov seen st"
  shows "\<exists>ps. decomposes ov None (map text (fst (flush_rest pg st))) ps \<and> concat (map snd ps) = seen"
proof (cases st)
  case (fields chunks cur idx)
  from assms fields obtain ps c f where d: "decomposes ov None (map text chunks) ps"
    and cur: "split_ws cur = c @ f"
    and ok: "carried_ok ov (last_text None (map text chunks)) c"
    and seen: "concat (map snd ps) @ f = seen"
    unfolding page_inv_def by auto
  show ?thesis
  proof (cases "strip cur = []")
    case True
    then have "split_ws cur = []" by (rule split_ws_blank)
    with cur have "f = []" by simp
    with True d seen fields show ?thesis by auto
  next
    case False
    have "decomposes ov None (map text (chunks @ [mk_chunk (strip cur) pg idx])) (ps @ [(c, f)])"
      using d cur ok by (simp add: decomposes_snoc split_ws_strip)
    moreover have "concat (map snd (ps @ [(c, f)])) = seen"
      using seen by simp
    ultimately show ?thesis
      using False fields by auto
  qed
qed

lemma page_decomposition:
  "\<exists>ps. decomposes (CHUNK_OVERLAP cfg) None (map text (chunk_text cfg [pc])) ps \<and>
        concat (map snd ps) = split_ws (text pc)"
proof -
  have "page_inv (CHUNK_OVERLAP cfg) [] ([], [], 0)"
    by (rule page_invI [where ps = "[]" and c = "[]" and f = "[]"]) simp_all
  from fold_paragraph_step_page_inv [OF this, of "split_nlnl (text pc)" "page pc"]
  have "page_inv (CHUNK_OVERLAP cfg) (split_ws (text pc))
      (fold (paragraph_step cfg (page pc)) (split_nlnl (text pc)) ([], [], 0))"
    by (simp add: split_nlnl_tokens)
  from flush_rest_page_inv [OF this, of "page pc"] show ?thesis
    by (simp add: chunk_text_def)
qed

lemma word_step_pages_ok: "pages_ok pg st \<Longrightarrow> pages_ok pg (word_step cfg pg w st)"
  by (cases st) auto

lemma fold_word_step_pages_ok: "pages_ok pg st \<Longrightarrow> pages_ok pg (fold (word_step cfg pg) ws st)"
  by (induction ws arbitrary: st) (simp_all add: word_step_pages_ok)

lemma sentence_step_pages_ok: "pages_ok pg st \<Longrightarrow> pages_ok pg (sentence_step cfg pg x st)"
proof (cases st)
  case (fields chunks cur idx)
  assume ok: "pages_ok pg st"
  have a: "pages_ok pg (chunks @ [mk_chunk (strip cur) pg idx], [], idx + 1)"
    using ok fields by simp
  have b: "pages_ok pg (chunks, [], idx)"
    using ok fields by simp
  show ?thesis
    using ok fields fold_word_step_pages_ok [OF a] fold_word_step_pages_ok [OF b]
    by (simp add: Let_def)
qed

lemma fold_sentence_step_pages_ok:
  "pages_ok pg st \<Longrightarrow> pages_ok pg (fold (sentence_step cfg pg) xs st)"
  by (induction xs arbitrary: st) (simp_all add: sentence_step_pages_ok)

lemma flush_rest_pages_ok:
  "pages_ok pg st \<Longrightarrow> c \<in> set (fst (flush_rest pg st)) \<Longrightarrow> page c = pg"
  by (cases st) (auto split: if_splits)

lemma split_large_paragraph_page:
  "c \<in> set (split_large_paragraph cfg p pg i) \<Longrightarrow> page c = pg"
proof -
  have "pages_ok pg (fold (sentence_step cfg pg) (split_sentences p) ([], [], i))"
    by (rule fold_sentence_step_pages_ok) simp
  then show "c \<in> set (split_large_paragraph cfg p pg i) \<Longrightarrow> page c = pg"
    unfolding split_large_paragraph_def by (rule flush_rest_pages_ok)
qed

lemma paragraph_step_pages_ok: "pages_ok pg st \<Longrightarrow> pages_ok pg (paragraph_step cfg pg x st)"
  by (cases st) (auto simp: Let_def split_large_paragraph_page)

lemma fold_paragraph_step_pages_ok:
  "pages_ok pg st \<Longrightarrow> pages_ok pg (fold (paragraph_step cfg pg) xs st)"
  by (induction xs arbitrary: st) (simp_all add: paragraph_step_pages_ok)

lemma map_constant: "(\<And>x. x \<in> set xs \<Longrightarrow> f x = c) \<Longrightarrow> map f xs = replicate (length xs) c"
  by (induction xs) simp_all

lemma chunk_text_page_tags:
  "map page (chunk_text cfg [pc]) = replicate (length (chunk_text cfg [pc])) (page pc)"
proof (rule map_constant)
  fix c assume c: "c \<in> set (chunk_text cfg [pc])"
  have "pages_ok (page pc) (fold (paragraph_step cfg (page pc)) (split_nlnl (text pc)) ([], [], 0))"
    by (rule fold_paragraph_step_pages_ok) simp
  from flush_rest_pages_ok [OF this, of c] c show "page c = page pc"
    by (simp add: chunk_text_def)
qed

lemma strip_strip: "strip (strip s) = strip s"
proof -
  let ?a = "dropWhile isspace s"
  let ?b = "rev (dropWhile isspace (rev ?a))"
  have b: "strip s = ?b" by (simp add: strip_def)
  have a: "?a = ?b @ rev (takeWhile isspace (rev ?a))"
    by (metis rev_append rev_rev_ident takeWhile_dropWhile_id)
  have front: "dropWhile isspace ?b = ?b"
  proof (cases "?b = []")
    case True
    show ?thesis by (simp only: True dropWhile.simps)
  next
    case False
    with a have "hd ?b = hd ?a" and "?a \<noteq> []"
      by (metis hd_append2, metis append_is_Nil_conv)
    then have "\<not> isspace (hd ?b)"
      using hd_dropWhile [of isspace s] by simp
    with False show ?thesis by (cases ?b) simp_all
  qed
  have rear: "rev (dropWhile isspace (rev ?b)) = ?b"
    by simp
  show ?thesis
    unfolding b by (simp only: strip_def front rear)
qed

lemma chunk_text_fitting_page:
  "fits_one_chunk cfg pc \<Longrightarrow> chunk_text cfg [pc] = [mk_chunk (strip (text pc)) (page pc) 0]"
  by (simp add: fits_one_chunk_def chunk_text_def Let_def strip_strip)

lemma chunk_text_fitting_pages:
  assumes "\<And>pc. pc \<in> set text_content \<Longrightarrow> fits_one_chunk cfg pc"
  shows "map text_page (chunk_text cfg text_content) =
         map (\<lambda>pc. (strip (text pc), page pc)) text_content"
proof -
  have "map text_page (chunk_text cfg text_content) =
        concat (map (\<lambda>p. map text_page (chunk_text cfg [p])) text_content)"
    using fold_page_step_text_page [of cfg text_content "([], 0)"] by (simp add: chunk_text_def)
  also have "map (\<lambda>p. map text_page (chunk_text cfg [p])) text_content =
        map (\<lambda>pc. [(strip (text pc), page pc)]) text_content"
    by (rule map_cong) (simp_all add: assms chunk_text_fitting_page text_page_def)
  also have "concat (map (\<lambda>pc. [(strip (text pc), page pc)]) text_content) =
        map (\<lambda>pc. (strip (text pc), page pc)) text_content"
    by (induction text_content) simp_all
  finally show ?thesis .
qed

lemma page_tokens_covered:
  "set (split_ws (text pc)) \<subseteq> set (concat (map (\<lambda>c. split_ws (text c)) (chunk_text cfg [pc])))"
proof -
  from page_decomposition [of cfg pc] obtain ps
    where d: "decomposes (CHUNK_OVERLAP cfg) None (map text (chunk_text cfg [pc])) ps"
      and c: "concat (map snd ps) = split_ws (text pc)" by blast
  from decomposes_covers [OF d] c show ?thesis
    by (simp add: comp_def)
qed









lemma first_chunk_prefix:
  assumes "chunk_text cfg [pc] = c # cs"
  shows "prefix (split_ws (text c)) (split_ws (text pc))"
proof -
  from page_decomposition [of cfg pc] obtain ps
    where d: "decomposes (CHUNK_OVERLAP cfg) None (map text (chunk_text cfg [pc])) ps"
      and e: "concat (map snd ps) = split_ws (text pc)" by blast
  from d assms obtain ca f ps' where ps: "ps = (ca, f) # ps'"
    by (cases ps) auto
  from d assms ps have "split_ws (text c) = ca @ f" "carried_ok (CHUNK_OVERLAP cfg) None ca"
    by simp_all
  then have f: "split_ws (text c) = f" by (simp add: carried_ok_def)
  from e ps have "split_ws (text pc) = f @ concat (map snd ps')" by simp
  with f show ?thesis by (simp add: prefix_def)
qed


lemma rfind_ge: "- 1 \<le> rfind s sub"
  by (simp add: rfind_def split: list.splits)
















section \<open>The chunker: page boundaries\<close>

text \<open>
  Claim C10. The buffer is flushed at every page boundary. The texts and pages of the
  chunks of a document are those of its pages chunked one by one, in order, and the
  chunks of a page carry its page number. The chunks of a page hold every token of the
  page and nothing of another page: they split into tokens carried from the chunk before
  on the same page and new tokens, which together are exactly the tokens of the page; the
  first chunk of a page carries nothing, so its tokens are the first tokens of the page.
  When every page is one paragraph that fits the maximum size, the document has one chunk
  for each page, the stripped text of the page.
\<close>

theorem chunks_page_local:
  "map text_page (chunk_text cfg text_content) =
     concat (map (\<lambda>pc. map text_page (chunk_text cfg [pc])) text_content) \<and>
   map page (chunk_text cfg [pc]) = replicate (length (chunk_text cfg [pc])) (page pc) \<and>
   (\<exists>parts. decomposes (CHUNK_OVERLAP cfg) None (map text (chunk_text cfg [pc])) parts \<and>
             concat (map snd parts) = split_ws (text pc)) \<and>
   (chunk_text cfg [pc] = c # cs \<longrightarrow> prefix (split_ws (text c)) (split_ws (text pc))) \<and>
   ((\<forall>pc\<in>set text_content. fits_one_chunk cfg pc) \<longrightarrow>
      map text_page (chunk_text cfg text_content) =
        map (\<lambda>pc. (strip (text pc), page pc)) text_content)"
proof -
  have l: "map text_page (chunk_text cfg text_content) =
     concat (map (\<lambda>pc. map text_page (chunk_text cfg [pc])) text_content)"
    using fold_page_step_text_page [of cfg text_content "([], 0)"] by (simp add: chunk_text_def)
  have f: "map text_page (chunk_text cfg text_content) =
        map (\<lambda>pc. (strip (text pc), page pc)) text_content"
    if "\<forall>pc\<in>set text_content. fits_one_chunk cfg pc"
    using that by (intro chunk_text_fitting_pages) simp
  show ?thesis
    using l chunk_text_page_tags [of cfg pc] page_decomposition [of cfg pc]
      first_chunk_prefix [of cfg pc c cs] f
    by (intro conjI impI) blast+
qed

text \<open>Witness for C10: two pages that fit one chunk each, and the page of two paragraphs
  whose second chunk starts with the overlap of the first.\<close>

theorem chunks_page_local_witness:
  "fits_one_chunk \<lparr>CHUNK_SIZE = 10, CHUNK_OVERLAP = 3\<rparr> \<lparr>text = ''ab cd'', page = 1\<rparr> \<and>
   fits_one_chunk \<lparr>CHUNK_SIZE = 10, CHUNK_OVERLAP = 3\<rparr> \<lparr>text = ''ef gh'', page = 2\<rparr> \<and>
   map text_page (chunk_text \<lparr>CHUNK_SIZE = 10, CHUNK_OVERLAP = 3\<rparr>
     [\<lparr>text = ''ab cd'', page = 1\<rparr>, \<lparr>text = ''ef gh'', page = 2\<rparr>])
     = [(''ab cd'', 1), (''ef gh'', 2)] \<and>
   chunk_text \<lparr>CHUNK_SIZE = 10, CHUNK_OVERLAP = 3\<rparr>
     [\<lparr>text = ''abcdefgh'' @ [CHR 0x0A, CHR 0x0A] @ ''ijklmnop'', page = 1\<rparr>]
     = [\<lparr>text = ''abcdefgh'', page = 1, chunk_index = 0\<rparr>,
        \<lparr>text = ''fgh ijklmnop'', page = 1, chunk_index = 1\<rparr>] \<and>
   prefix (split_ws ''abcdefgh'') (split_ws (''abcdefgh'' @ [CHR 0x0A, CHR 0x0A] @ ''ijklmnop''))"
proof -
  let ?cfg = "\<lparr>CHUNK_SIZE = 10, CHUNK_OVERLAP = 3\<rparr>"
  let ?p1 = "\<lparr>text = ''ab cd'', page = 1\<rparr>"
  let ?p2 = "\<lparr>text = ''ef gh'', page = 2\<rparr>"
  let ?pc = "\<lparr>text = ''abcdefgh'' @ [CHR 0x0A, CHR 0x0A] @ ''ijklmnop'', page = 1\<rparr>"
  let ?c = "\<lparr>text = ''abcdefgh'', page = 1, chunk_index = 0\<rparr>"
  let ?cs = "[\<lparr>text = ''fgh ijklmnop'', page = 1, chunk_index = 1\<rparr>]"
  have f1: "fits_one_chunk ?cfg ?p1" by code_simp
  have f2: "fits_one_chunk ?cfg ?p2" by code_simp
  from f1 f2 have all: "\<forall>pc\<in>set [?p1, ?p2]. fits_one_chunk ?cfg pc" by simp
  have s1: "strip (text ?p1) = ''ab cd''" by code_simp
  have s2: "strip (text ?p2) = ''ef gh''" by code_simp
  from chunks_page_local [where cfg = ?cfg and text_content = "[?p1, ?p2]"] all
  have "map text_page (chunk_text ?cfg [?p1, ?p2]) =
        map (\<lambda>pc. (strip (text pc), page pc)) [?p1, ?p2]"
    by blast
  then have m: "map text_page (chunk_text ?cfg [?p1, ?p2]) = [(''ab cd'', 1), (''ef gh'', 2)]"
    using s1 s2 by simp
  have e: "chunk_text ?cfg [?pc] = ?c # ?cs" by code_simp
  from chunks_page_local [where cfg = ?cfg and pc = ?pc and c = ?c and cs = ?cs] e
  have "prefix (split_ws (text ?c)) (split_ws (text ?pc))"
    by blast
  then have p: "prefix (split_ws ''abcdefgh'') (split_ws (''abcdefgh'' @ [CHR 0x0A, CHR 0x0A] @ ''ijklmnop''))"
    by simp
  from f1 f2 m e p show ?thesis
    by (intro conjI)
qed

end
